theory Spec2Isabelle
  imports Main "HOL-Library.AList" "HOL-Library.Sublist"
begin

section \<open>ImmutableObject: the merge engine over an explicit object store\<close>

text \<open>
  The module \<^verbatim>\<open>ImmutableObject.js\<close> builds new objects and claims that it never writes
  into the objects it is given, and that untouched sub-trees are shared by reference.
  Both are statements about object identity, so JavaScript objects live in an explicit
  store: a list of objects, an address being an index into it. Allocation appends to the
  store, a property write replaces the object at one address.

  An object carries its own enumerable properties as an association list in the order
  in which they were created: writing an existing property keeps its position, writing a
  new one appends it (\<^const>\<open>AList.update\<close>). What \<^verbatim>\<open>Object.keys\<close> and \<^verbatim>\<open>for ... in\<close>
  report is the order of enumeration of the language: the property names that are
  canonical array indices first, in ascending numeric order, then all other names in
  the order of their creation.

  Two uses of an object are outside this model: an assignment to the property name
  \<^verbatim>\<open>__proto__\<close>, which calls the setter inherited from \<^verbatim>\<open>Object.prototype\<close> instead of
  creating a property, and an own property named \<^verbatim>\<open>hasOwnProperty\<close>, which shadows the
  method that the module calls through the object. The hypothesis \<open>ordinary_names\<close>
  excludes both.
\<close>

subsection \<open>Values, objects, store\<close>

type_synonym addr = nat

datatype val = Undefined | Null | Bool bool | Num int | Str string | Ref addr

text \<open>What an object is an instance of, as far as the module can tell the difference:
  \<^verbatim>\<open>instanceof ImmutableValue\<close>, \<^verbatim>\<open>Array.isArray\<close>, \<^verbatim>\<open>typeof\<close> being \<^verbatim>\<open>'function'\<close>,
  and every other object.\<close>

datatype kind = PlainObject | ImmutableValue | ArrayObject | FunctionObject

record obj =
  kind :: kind
  props :: "(string \<times> val) list"
  frozen :: bool

type_synonym heap = "obj list"

text \<open>The three \<^verbatim>\<open>invariant(...)\<close> calls that can throw: the one in \<^verbatim>\<open>assertImmutable\<close>,
  the one in \<^verbatim>\<open>set\<close> (\<^verbatim>\<open>Invalid ImmutableMap.set argument `put`\<close>) and the one behind
  \<^verbatim>\<open>checkMergeObjectArgs\<close>.\<close>

datatype error = NotImmutable | InvalidPatch | MalformedMergePair

type_synonym result = "(error + val) \<times> heap"

definition emptyObject :: obj where
  "emptyObject = \<lparr>kind = PlainObject, props = [], frozen = False\<rparr>"

definition deref :: "heap \<Rightarrow> val \<Rightarrow> obj option" where
  "deref h v = (case v of Ref a \<Rightarrow> (if a < length h then Some (h ! a) else None) | _ \<Rightarrow> None)"

text \<open>Property names that are canonical array indices: the decimal numeral, without
  leading zeros, of an integer from \<open>0\<close> to \<open>2\<^sup>3\<^sup>2 - 2\<close>.\<close>

definition digitValue :: "char \<Rightarrow> int option" where
  "digitValue c =
     map_of [(CHR ''0'', 0), (CHR ''1'', 1), (CHR ''2'', 2), (CHR ''3'', 3), (CHR ''4'', 4),
             (CHR ''5'', 5), (CHR ''6'', 6), (CHR ''7'', 7), (CHR ''8'', 8), (CHR ''9'', 9)] c"

definition indexValue :: "string \<Rightarrow> int" where
  "indexValue k = foldl (\<lambda>n c. 10 * n + (case digitValue c of Some d \<Rightarrow> d | None \<Rightarrow> 0)) 0 k"

definition isArrayIndex :: "string \<Rightarrow> bool" where
  "isArrayIndex k =
     (k \<noteq> [] \<and> list_all (\<lambda>c. digitValue c \<noteq> None) k \<and> (k = ''0'' \<or> hd k \<noteq> CHR ''0'')
      \<and> indexValue k < 4294967295)"

text \<open>The order in which the properties of an object are enumerated
  (\<^verbatim>\<open>OrdinaryOwnPropertyKeys\<close>): array indices in ascending numeric order, then the other
  names in the order of their creation.\<close>

definition enumerationOrder :: "(string \<times> 'a) list \<Rightarrow> (string \<times> 'a) list" where
  "enumerationOrder ps =
     sort_key (\<lambda>p. indexValue (fst p)) (filter (\<lambda>p. isArrayIndex (fst p)) ps)
     @ filter (\<lambda>p. \<not> isArrayIndex (fst p)) ps"

text \<open>The own enumerable properties of a value, as an enumeration lists them; a value
  that is not an object has none (\<^verbatim>\<open>for ... in\<close> over \<^verbatim>\<open>null\<close> does not iterate, a
  \<^verbatim>\<open>null\<close> source contributes nothing to a merge).\<close>

definition ownProps :: "heap \<Rightarrow> val \<Rightarrow> (string \<times> val) list" where
  "ownProps h v = (case deref h v of Some ob \<Rightarrow> enumerationOrder (props ob) | None \<Rightarrow> [])"

text \<open>\<^verbatim>\<open>Object.keys(v)\<close>, and the keys of \<open>v\<close> as \<^verbatim>\<open>for ... in\<close> visits them.\<close>

definition keysOf :: "heap \<Rightarrow> val \<Rightarrow> string list" where
  "keysOf h v = map fst (ownProps h v)"

text \<open>\<^verbatim>\<open>v.hasOwnProperty(k)\<close>, the method being the one of \<^verbatim>\<open>Object.prototype\<close>.\<close>

definition hasOwnProperty :: "heap \<Rightarrow> val \<Rightarrow> string \<Rightarrow> bool" where
  "hasOwnProperty h v k = (k \<in> set (keysOf h v))"

text \<open>\<^verbatim>\<open>v[k]\<close>: the property's value, \<^verbatim>\<open>undefined\<close> when there is none.\<close>

definition getProp :: "heap \<Rightarrow> val \<Rightarrow> string \<Rightarrow> val" where
  "getProp h v k = (case map_of (ownProps h v) k of Some x \<Rightarrow> x | None \<Rightarrow> Undefined)"

text \<open>\<^verbatim>\<open>o[k] = v\<close> on the object at address \<open>a\<close>, for a property name \<open>k\<close> other than
  \<^verbatim>\<open>__proto__\<close>. The module only ever writes to objects it has allocated itself and not
  yet frozen.\<close>

definition setField :: "heap \<Rightarrow> addr \<Rightarrow> string \<Rightarrow> val \<Rightarrow> heap" where
  "setField h a k v = h[a := (h ! a)\<lparr>props := AList.update k v (props (h ! a))\<rparr>]"

definition typeof :: "heap \<Rightarrow> val \<Rightarrow> string" where
  "typeof h v =
     (case v of
        Undefined \<Rightarrow> ''undefined''
      | Null \<Rightarrow> ''object''
      | Bool b \<Rightarrow> ''boolean''
      | Num n \<Rightarrow> ''number''
      | Str s \<Rightarrow> ''string''
      | Ref a \<Rightarrow>
          (case deref h v of
             None \<Rightarrow> ''undefined''
           | Some ob \<Rightarrow> (if kind ob = FunctionObject then ''function'' else ''object'')))"

definition isArray :: "heap \<Rightarrow> val \<Rightarrow> bool" where
  "isArray h v = (case deref h v of Some ob \<Rightarrow> kind ob = ArrayObject | None \<Rightarrow> False)"

text \<open>\<^verbatim>\<open>v instanceof ImmutableValue\<close>.\<close>

definition instanceofImmutableValue :: "heap \<Rightarrow> val \<Rightarrow> bool" where
  "instanceofImmutableValue h v =
     (case deref h v of Some ob \<Rightarrow> kind ob = ImmutableValue | None \<Rightarrow> False)"

subsection \<open>The collaborators that are not part of the module\<close>

text \<open>Modelled from the spec: \<^verbatim>\<open>ImmutableValue.mergeAllPropertiesInto\<close>, the bulk
  "merge all source objects into a blank target" initialisation. Every source in turn
  has each of its own properties, in its own order, assigned to the target.\<close>

definition assignAll :: "heap \<Rightarrow> addr \<Rightarrow> (string \<times> val) list \<Rightarrow> heap" where
  "assignAll h a ps = foldl (\<lambda>h' (k, v). setField h' a k v) h ps"

definition mergeAllPropertiesInto :: "heap \<Rightarrow> addr \<Rightarrow> val list \<Rightarrow> heap" where
  "mergeAllPropertiesInto h dst srcs = foldl (\<lambda>h' s. assignAll h' dst (ownProps h' s)) h srcs"

text \<open>Modelled from the spec: \<^verbatim>\<open>ImmutableValue.deepFreezeRootNode\<close>, the "freeze/seal
  primitive invoked once at construction that makes subsequent in-place writes to the value's
  entries fail or no-op"; it seals the object under construction.\<close>

definition deepFreezeRootNode :: "heap \<Rightarrow> addr \<Rightarrow> heap" where
  "deepFreezeRootNode h a = h[a := (h ! a)\<lparr>frozen := True\<rparr>]"

text \<open>Modelled from the spec: \<^verbatim>\<open>mergeHelpers.isTerminal\<close>, the terminal classifier. "A value
  is terminal if it is not a plain mapping/record capable of participating in key-wise
  merge (e.g., primitives, arrays, functions ...). Mappings (including nested Immutable
  Values) are non-terminal." A classifier sees a value and the object it refers to, if
  any; the merge below takes the classifier as a parameter.\<close>

type_synonym classifier = "val \<Rightarrow> obj option \<Rightarrow> bool"

definition isMapping :: "obj option \<Rightarrow> bool" where
  "isMapping x = (case x of Some ob \<Rightarrow> kind ob = PlainObject \<or> kind ob = ImmutableValue | None \<Rightarrow> False)"

definition isTerminal :: classifier where
  "isTerminal v x = (\<not> isMapping x)"

text \<open>Modelled from the spec: \<^verbatim>\<open>mergeHelpers.checkMergeObjectArgs\<close>, "validate (base, patch)
  as a compatible pair (both must be mapping-shaped ...)". \<open>True\<close> when the check passes.\<close>

definition checkMergeObjectArgs :: "heap \<Rightarrow> val \<Rightarrow> val \<Rightarrow> bool" where
  "checkMergeObjectArgs h one two = (isMapping (deref h one) \<and> isMapping (deref h two))"

subsection \<open>The constructor\<close>

text \<open>\<^verbatim>\<open>new ImmutableObject(src1, ..., srcn)\<close>. The base constructor is handed the secret
  key it asks for, so it does not throw. The flag \<open>dev\<close> is the build constant
  \<^verbatim>\<open>__DEV__\<close>: the new object is frozen in development builds only.\<close>

definition ImmutableObject_new :: "bool \<Rightarrow> heap \<Rightarrow> val list \<Rightarrow> val \<times> heap" where
  "ImmutableObject_new dev h srcs =
     (let this = length h;
          h1 = h @ [\<lparr>kind = ImmutableValue, props = [], frozen = False\<rparr>];
          h2 = mergeAllPropertiesInto h1 this srcs;
          h3 = (if dev then deepFreezeRootNode h2 this else h2)
      in (Ref this, h3))"

subsection \<open>The static methods\<close>

definition ImmutableObject_set :: "bool \<Rightarrow> heap \<Rightarrow> val \<Rightarrow> val \<Rightarrow> result" where
  "ImmutableObject_set dev h immutable put =
     (if \<not> instanceofImmutableValue h immutable then (Inl NotImmutable, h)
      else if \<not> (typeof h put = ''object'' \<and> put \<noteq> Undefined \<and> \<not> isArray h put)
      then (Inl InvalidPatch, h)
      else (case ImmutableObject_new dev h [immutable, put] of (r, h') \<Rightarrow> (Inr r, h')))"

definition ImmutableObject_setProperty :: "bool \<Rightarrow> heap \<Rightarrow> val \<Rightarrow> string \<Rightarrow> val \<Rightarrow> result" where
  "ImmutableObject_setProperty dev h immutableObject fieldName putField =
     (let put = length h;
          h1 = h @ [emptyObject];
          h2 = setField h1 put fieldName putField
      in ImmutableObject_set dev h2 immutableObject (Ref put))"

text \<open>The loop of \<^verbatim>\<open>deleteProperty\<close> over the keys of \<^verbatim>\<open>immutableObject\<close>, writing into
  \<^verbatim>\<open>copy\<close>.\<close>

fun deleteProperty_loop :: "heap \<Rightarrow> addr \<Rightarrow> val \<Rightarrow> string \<Rightarrow> string list \<Rightarrow> heap" where
  "deleteProperty_loop h copy ob droppedField [] = h"
| "deleteProperty_loop h copy ob droppedField (key # keys) =
     (if key \<noteq> droppedField \<and> hasOwnProperty h ob key
      then deleteProperty_loop (setField h copy key (getProp h ob key)) copy ob droppedField keys
      else deleteProperty_loop h copy ob droppedField keys)"

definition ImmutableObject_deleteProperty :: "bool \<Rightarrow> heap \<Rightarrow> val \<Rightarrow> string \<Rightarrow> result" where
  "ImmutableObject_deleteProperty dev h immutableObject droppedField =
     (let copy = length h;
          h1 = h @ [emptyObject];
          h2 = deleteProperty_loop h1 copy immutableObject droppedField (keysOf h1 immutableObject)
      in (case ImmutableObject_new dev h2 [Ref copy] of (r, h') \<Rightarrow> (Inr r, h')))"

subsection \<open>The recursive merge\<close>

text \<open>The second loop of \<^verbatim>\<open>_setDeep\<close>: the keys of \<^verbatim>\<open>put\<close> that \<^verbatim>\<open>obj\<close> does not have.\<close>

fun newKeys_loop :: "heap \<Rightarrow> addr \<Rightarrow> val \<Rightarrow> val \<Rightarrow> string list \<Rightarrow> heap" where
  "newKeys_loop h tnf ob put [] = h"
| "newKeys_loop h tnf ob put (newKey # newKeys) =
     (if hasOwnProperty h ob newKey
      then newKeys_loop h tnf ob put newKeys
      else newKeys_loop (setField h tnf newKey (getProp h put newKey)) tnf ob put newKeys)"

text \<open>\<^verbatim>\<open>_setDeep(obj, put)\<close>, here \<open>p_setDeep\<close> (an identifier cannot begin with an
  underscore), and its first loop, over the keys of \<^verbatim>\<open>obj\<close>. The recursion
  follows the objects of the store, which may be cyclic, so the call depth is bounded by
  a fuel argument; \<open>None\<close> is the call that does not return within that depth. An error
  thrown by a recursive call leaves the loop and the enclosing calls at once.\<close>

fun p_setDeep :: "nat \<Rightarrow> bool \<Rightarrow> classifier \<Rightarrow> heap \<Rightarrow> val \<Rightarrow> val \<Rightarrow> result option"
  and keys_loop ::
    "nat \<Rightarrow> bool \<Rightarrow> classifier \<Rightarrow> heap \<Rightarrow> addr \<Rightarrow> val \<Rightarrow> val \<Rightarrow> string list \<Rightarrow> ((error + unit) \<times> heap) option"
where
  "p_setDeep 0 dev isT h ob put = None"
| "p_setDeep (Suc n) dev isT h ob put =
     (if \<not> checkMergeObjectArgs h ob put then Some (Inl MalformedMergePair, h)
      else
        let totalNewFields = length h;
            h1 = h @ [emptyObject]
        in (case keys_loop n dev isT h1 totalNewFields ob put (keysOf h1 ob) of
              None \<Rightarrow> None
            | Some (Inl e, h2) \<Rightarrow> Some (Inl e, h2)
            | Some (Inr u, h2) \<Rightarrow>
                let h3 = newKeys_loop h2 totalNewFields ob put (keysOf h2 put)
                in if instanceofImmutableValue h3 ob
                   then (case ImmutableObject_new dev h3 [Ref totalNewFields] of
                           (r, h4) \<Rightarrow> Some (Inr r, h4))
                   else if instanceofImmutableValue h3 put
                   then (case ImmutableObject_new dev h3 [Ref totalNewFields] of
                           (r, h4) \<Rightarrow> Some (Inr r, h4))
                   else Some (Inr (Ref totalNewFields), h3)))"
| "keys_loop n dev isT h tnf ob put [] = Some (Inr (), h)"
| "keys_loop n dev isT h tnf ob put (key # keys) =
     (if \<not> hasOwnProperty h put key
      then keys_loop n dev isT (setField h tnf key (getProp h ob key)) tnf ob put keys
      else if isT (getProp h ob key) (deref h (getProp h ob key))
              \<or> isT (getProp h put key) (deref h (getProp h put key))
      then keys_loop n dev isT (setField h tnf key (getProp h put key)) tnf ob put keys
      else (case p_setDeep n dev isT h (getProp h ob key) (getProp h put key) of
              None \<Rightarrow> None
            | Some (Inl e, h') \<Rightarrow> Some (Inl e, h')
            | Some (Inr r, h') \<Rightarrow> keys_loop n dev isT (setField h' tnf key r) tnf ob put keys))"

definition ImmutableObject_setDeep ::
  "nat \<Rightarrow> bool \<Rightarrow> classifier \<Rightarrow> heap \<Rightarrow> val \<Rightarrow> val \<Rightarrow> result option" where
  "ImmutableObject_setDeep n dev isT h immutable put =
     (if \<not> instanceofImmutableValue h immutable then Some (Inl NotImmutable, h)
      else p_setDeep n dev isT h immutable put)"

section \<open>Auxiliary notions\<close>

text \<open>The effect of a sequence of property writes on the property list of one object.\<close>

definition writeAll :: "(string \<times> val) list \<Rightarrow> (string \<times> val) list \<Rightarrow> (string \<times> val) list" where
  "writeAll acc ps = foldl (\<lambda>al (k, v). AList.update k v al) acc ps"


text \<open>The order of enumeration on property names alone.\<close>

definition enumerationKeys :: "string list \<Rightarrow> string list" where
  "enumerationKeys ks =
     sort_key indexValue (filter isArrayIndex ks) @ filter (\<lambda>k. \<not> isArrayIndex k) ks"

text \<open>No object of the store has an own property named \<^verbatim>\<open>__proto__\<close> or
  \<^verbatim>\<open>hasOwnProperty\<close>: an assignment \<^verbatim>\<open>o[k] = v\<close> creates or updates the own property
  \<open>k\<close>, and \<^verbatim>\<open>o.hasOwnProperty\<close> is the method of \<^verbatim>\<open>Object.prototype\<close>.\<close>

definition ordinary_names :: "heap \<Rightarrow> bool" where
  "ordinary_names h =
     list_all (\<lambda>ob. ''__proto__'' \<notin> set (map fst (props ob))
                    \<and> ''hasOwnProperty'' \<notin> set (map fst (props ob))) h"

text \<open>A value is valid in a store when it is not a dangling reference.\<close>

definition validRef :: "heap \<Rightarrow> val \<Rightarrow> bool" where
  "validRef h v = (case v of Ref a \<Rightarrow> a < length h | _ \<Rightarrow> True)"


text \<open>A store grows at an address when nothing happened to it but writes to the properties
  of the object at that address and allocations.\<close>

definition grows_at :: "heap \<Rightarrow> addr \<Rightarrow> heap \<Rightarrow> bool" where
  "grows_at h a h' = (\<exists>ps zs. h' = h[a := (h ! a)\<lparr>props := ps\<rparr>] @ zs)"

text \<open>A well-formed store: the keys of an object are unique, and no property holds a
  dangling reference.\<close>

definition wf_heap :: "heap \<Rightarrow> bool" where
  "wf_heap h =
     list_all (\<lambda>ob. distinct (map fst (props ob)) \<and> list_all (\<lambda>(k, v). validRef h v) (props ob)) h"

text \<open>The rule of the first loop of \<^verbatim>\<open>_setDeep\<close>, in the words of the specification:
  under a key \<open>k\<close> of the base, what is stored (\<open>v\<close>) is the value of the base when the
  patch lacks \<open>k\<close>, the value of the patch when either side is terminal, and otherwise what
  a recursive call on the two values returned, in some later well-formed store \<open>hi\<close>, the
  objects it built being left as they were returned (the accumulator \<open>tnf\<close> of the
  enclosing call is the one object that is still written to).\<close>

definition merged_value ::
  "nat \<Rightarrow> bool \<Rightarrow> classifier \<Rightarrow> heap \<Rightarrow> heap \<Rightarrow> addr \<Rightarrow> val \<Rightarrow> val \<Rightarrow> string \<Rightarrow> val \<Rightarrow> bool" where
  "merged_value n dev isT h h' tnf ob put k v =
     (let vo = getProp h ob k; vp = getProp h put k in
      if \<not> hasOwnProperty h put k then v = vo
      else if isT vo (deref h vo) \<or> isT vp (deref h vp) then v = vp
      else (\<exists>hi hi'. prefix h hi \<and> wf_heap hi
              \<and> p_setDeep n dev isT hi vo vp = Some (Inr v, hi')
              \<and> length hi' \<le> length h'
              \<and> (\<forall>a < length hi'. a \<noteq> tnf \<longrightarrow> h' ! a = hi' ! a)))"

text \<open>The entries that the second loop appends: the keys that only the patch has, in the
  order of the patch, with the values of the patch.\<close>

definition put_only :: "heap \<Rightarrow> val \<Rightarrow> val \<Rightarrow> (string \<times> val) list" where
  "put_only h ob put =
     map (\<lambda>k. (k, getProp h put k)) (filter (\<lambda>k. k \<notin> set (keysOf h ob)) (keysOf h put))"

text \<open>Somewhere within \<open>d\<close> levels below \<open>(ob, put)\<close>, on a path that the merge descends,
  a pair fails \<^const>\<open>checkMergeObjectArgs\<close>.\<close>

fun malformed :: "nat \<Rightarrow> classifier \<Rightarrow> heap \<Rightarrow> val \<Rightarrow> val \<Rightarrow> bool" where
  "malformed 0 isT h ob put = (\<not> checkMergeObjectArgs h ob put)"
| "malformed (Suc d) isT h ob put =
     (\<not> checkMergeObjectArgs h ob put
      \<or> list_ex (\<lambda>k. hasOwnProperty h put k
                    \<and> \<not> isT (getProp h ob k) (deref h (getProp h ob k))
                    \<and> \<not> isT (getProp h put k) (deref h (getProp h put k))
                    \<and> malformed d isT h (getProp h ob k) (getProp h put k))
           (keysOf h ob))"

text \<open>The objects below \<open>v\<close> are nested at most \<open>d\<close> deep (so there is no cycle below
  \<open>v\<close>).\<close>

fun depth_le :: "heap \<Rightarrow> nat \<Rightarrow> val \<Rightarrow> bool" where
  "depth_le h 0 v = (deref h v = None)"
| "depth_le h (Suc d) v = list_all (\<lambda>(k, v'). depth_le h d v') (ownProps h v)"

subsection \<open>Example stores\<close>

text \<open>Base \<^verbatim>\<open>{a: 1, b: 2, c: 3}\<close> at address 0, patch \<^verbatim>\<open>{b: 'x', d: 'y'}\<close> at address 1,
  the array \<^verbatim>\<open>[1, 2]\<close> at address 2 and the empty object \<^verbatim>\<open>{}\<close> at address 3.\<close>

definition shallow_heap :: heap where
  "shallow_heap =
     [\<lparr>kind = ImmutableValue, props = [(''a'', Num 1), (''b'', Num 2), (''c'', Num 3)], frozen = True\<rparr>,
      \<lparr>kind = PlainObject, props = [(''b'', Str ''x''), (''d'', Str ''y'')], frozen = False\<rparr>,
      \<lparr>kind = ArrayObject, props = [(''0'', Num 1), (''1'', Num 2)], frozen = False\<rparr>,
      \<lparr>kind = PlainObject, props = [], frozen = False\<rparr>]"

text \<open>Base \<^verbatim>\<open>{k: {m: 1}}\<close> at address 0 (its nested object at address 1) and patch
  \<^verbatim>\<open>{k: 5}\<close> at address 2.\<close>

definition leaf_heap :: heap where
  "leaf_heap =
     [\<lparr>kind = ImmutableValue, props = [(''k'', Ref 1)], frozen = True\<rparr>,
      \<lparr>kind = PlainObject, props = [(''m'', Num 1)], frozen = False\<rparr>,
      \<lparr>kind = PlainObject, props = [(''k'', Num 5)], frozen = False\<rparr>]"

text \<open>The same base and patch as a production build has them (\<^verbatim>\<open>__DEV__\<close> off): nothing is
  frozen.\<close>

definition production_heap :: heap where
  "production_heap =
     [\<lparr>kind = ImmutableValue, props = [(''k'', Ref 1)], frozen = False\<rparr>,
      \<lparr>kind = PlainObject, props = [(''m'', Num 1)], frozen = False\<rparr>,
      \<lparr>kind = PlainObject, props = [(''k'', Num 5)], frozen = False\<rparr>]"

text \<open>Base \<^verbatim>\<open>{k: {m: 1, n: 2}}\<close> at address 0 (nested object at 1), patch
  \<^verbatim>\<open>{k: {n: 9, p: 3}}\<close> at address 2 (nested object at 3) and the empty patch \<^verbatim>\<open>{}\<close> at
  address 4.\<close>

definition deep_heap :: heap where
  "deep_heap =
     [\<lparr>kind = ImmutableValue, props = [(''k'', Ref 1)], frozen = True\<rparr>,
      \<lparr>kind = PlainObject, props = [(''m'', Num 1), (''n'', Num 2)], frozen = False\<rparr>,
      \<lparr>kind = PlainObject, props = [(''k'', Ref 3)], frozen = False\<rparr>,
      \<lparr>kind = PlainObject, props = [(''n'', Num 9), (''p'', Num 3)], frozen = False\<rparr>,
      \<lparr>kind = PlainObject, props = [], frozen = False\<rparr>]"

text \<open>Base \<^verbatim>\<open>{k: [1]}\<close> at address 0 and patch \<^verbatim>\<open>{k: [2]}\<close> at address 2, the arrays at
  addresses 1 and 3; and a classifier for which only values that are not objects are
  terminal, so that the merge descends into the pair of arrays.\<close>

definition array_heap :: heap where
  "array_heap =
     [\<lparr>kind = ImmutableValue, props = [(''k'', Ref 1)], frozen = True\<rparr>,
      \<lparr>kind = ArrayObject, props = [(''0'', Num 1)], frozen = False\<rparr>,
      \<lparr>kind = PlainObject, props = [(''k'', Ref 3)], frozen = False\<rparr>,
      \<lparr>kind = ArrayObject, props = [(''0'', Num 2)], frozen = False\<rparr>]"

text \<open>Base \<^verbatim>\<open>{a: 1}\<close> at address 0 and patch \<^verbatim>\<open>{'1': 'y'}\<close> at address 1: the one key
  of the patch is an array index.\<close>

definition index_heap :: heap where
  "index_heap =
     [\<lparr>kind = ImmutableValue, props = [(''a'', Num 1)], frozen = True\<rparr>,
      \<lparr>kind = PlainObject, props = [(''1'', Str ''y'')], frozen = False\<rparr>]"

definition objectsNonTerminal :: classifier where
  "objectsNonTerminal v x = (x = None)"

section \<open>Properties of the store and of property writes\<close>

subsection \<open>The order of enumeration\<close>

lemma enumerationOrder_Nil [simp]: "enumerationOrder [] = []"
  by (simp add: enumerationOrder_def)

lemma set_enumerationOrder [simp]: "set (enumerationOrder ps) = set ps"
  by (auto simp: enumerationOrder_def)

lemma enumerationOrder_ordinary:
  assumes "\<forall>p \<in> set ps. \<not> isArrayIndex (fst p)"
  shows "enumerationOrder ps = ps"
proof -
  have "filter (\<lambda>p. isArrayIndex (fst p)) ps = []" using assms by (simp add: filter_empty_conv)
  moreover have "filter (\<lambda>p. \<not> isArrayIndex (fst p)) ps = ps" using assms by (simp add: filter_id_conv)
  ultimately show ?thesis by (simp add: enumerationOrder_def)
qed

lemma distinct_map_insort_key:
  "distinct (map g (insort_key f x xs)) = (g x \<notin> g ` set xs \<and> distinct (map g xs))"
  by (induction xs) (auto simp: set_insort_key)

lemma distinct_map_sort_key: "distinct (map g (sort_key f xs)) = distinct (map g xs)"
  by (induction xs) (simp_all add: distinct_map_insort_key)

lemma distinct_map_partition:
  "distinct (map fst ps) =
     (distinct (map fst (filter (\<lambda>p. Q (fst p)) ps)) \<and> distinct (map fst (filter (\<lambda>p. \<not> Q (fst p)) ps)))"
  by (induction ps) auto

lemma distinct_enumerationOrder:
  "distinct (map fst (enumerationOrder ps)) = distinct (map fst ps)"
proof -
  let ?A = "filter (\<lambda>p. isArrayIndex (fst p)) ps" and ?B = "filter (\<lambda>p. \<not> isArrayIndex (fst p)) ps"
  have "fst ` set ?A \<inter> fst ` set ?B = {}" by auto
  then have "distinct (map fst (enumerationOrder ps)) = (distinct (map fst ?A) \<and> distinct (map fst ?B))"
    by (simp add: enumerationOrder_def distinct_map_sort_key)
  then show ?thesis using distinct_map_partition [of ps isArrayIndex] by simp
qed

lemma map_of_enumerationOrder:
  assumes "distinct (map fst ps)"
  shows "map_of (enumerationOrder ps) = map_of ps"
proof -
  have "distinct (map fst (enumerationOrder ps))" using assms by (simp add: distinct_enumerationOrder)
  then show ?thesis using assms by (simp add: map_of_inject_set)
qed

lemma enumerationOrder_idem [simp]: "enumerationOrder (enumerationOrder ps) = enumerationOrder ps"
proof -
  let ?f = "\<lambda>p :: string \<times> 'a. indexValue (fst p)"
  let ?A = "filter (\<lambda>p. isArrayIndex (fst p)) ps" and ?B = "filter (\<lambda>p. \<not> isArrayIndex (fst p)) ps"
  have a: "filter (\<lambda>p. isArrayIndex (fst p)) (sort_key ?f ?A) = sort_key ?f ?A"
    by (simp add: filter_id_conv)
  have b: "filter (\<lambda>p. isArrayIndex (fst p)) ?B = []" by (simp add: filter_empty_conv)
  have c: "filter (\<lambda>p. \<not> isArrayIndex (fst p)) (sort_key ?f ?A) = []" by (simp add: filter_empty_conv)
  have d: "filter (\<lambda>p. \<not> isArrayIndex (fst p)) ?B = ?B" by (simp add: filter_id_conv)
  have e: "sort_key ?f (sort_key ?f ?A) = sort_key ?f ?A"
    by (rule sort_key_id_if_sorted) (rule sorted_sort_key)
  show ?thesis
    unfolding enumerationOrder_def filter_append a b c d by (simp add: e)
qed

lemma enumerationOrder_filter:
  "enumerationOrder (filter Q ps) = filter Q (enumerationOrder ps)"
  by (simp add: enumerationOrder_def filter_sort conj_commute)

lemma map_insort_key: "map g (insort_key (\<lambda>p. f (g p)) x xs) = insort_key f (g x) (map g xs)"
  by (induction xs) simp_all

lemma map_sort_key: "map g (sort_key (\<lambda>p. f (g p)) xs) = sort_key f (map g xs)"
  by (induction xs) (simp_all add: map_insort_key)

lemma map_fst_enumerationOrder: "map fst (enumerationOrder ps) = enumerationKeys (map fst ps)"
  by (simp add: enumerationOrder_def enumerationKeys_def map_sort_key filter_map comp_def)

lemma enumerationKeys_append_ordinary:
  assumes "\<forall>k \<in> set ys. \<not> isArrayIndex k"
  shows "enumerationKeys (xs @ ys) = enumerationKeys xs @ ys"
proof -
  have "filter isArrayIndex ys = []" using assms by (simp add: filter_empty_conv)
  moreover have "filter (\<lambda>k. \<not> isArrayIndex k) ys = ys" using assms by (simp add: filter_id_conv)
  ultimately show ?thesis by (simp add: enumerationKeys_def)
qed

lemma ownProps_enumerated [simp]: "enumerationOrder (ownProps h v) = ownProps h v"
  by (cases "deref h v") (simp_all add: ownProps_def)

lemma keysOf_enumerated [simp]: "enumerationKeys (keysOf h v) = keysOf h v"
  unfolding keysOf_def map_fst_enumerationOrder [symmetric] by simp

lemma getProp_entries:
  assumes "ownProps h v = enumerationOrder es" and "distinct (map fst es)"
  shows "getProp h v k = (case map_of es k of Some x \<Rightarrow> x | None \<Rightarrow> Undefined)"
  using assms by (simp add: getProp_def map_of_enumerationOrder)

lemma keysOf_entries:
  assumes "ownProps h v = enumerationOrder es"
  shows "keysOf h v = enumerationKeys (map fst es)"
  using assms by (simp add: keysOf_def map_fst_enumerationOrder)

subsection \<open>Sequences of property writes\<close>

lemma writeAll_Nil [simp]: "writeAll acc [] = acc"
  by (simp add: writeAll_def)

lemma writeAll_Cons [simp]: "writeAll acc ((k, v) # ps) = writeAll (AList.update k v acc) ps"
  by (simp add: writeAll_def)

lemma writeAll_append: "writeAll acc (ps @ qs) = writeAll (writeAll acc ps) qs"
  by (simp add: writeAll_def)

lemma update_fresh: "k \<notin> fst ` set al \<Longrightarrow> AList.update k v al = al @ [(k, v)]"
  by (induction al) auto

lemma update_keys_present: "k \<in> fst ` set al \<Longrightarrow> map fst (AList.update k v al) = map fst al"
  by (induction al) auto

lemma writeAll_keys:
  "distinct (map fst ps) \<Longrightarrow>
   map fst (writeAll acc ps) = map fst acc @ filter (\<lambda>k. k \<notin> fst ` set acc) (map fst ps)"
proof (induction ps arbitrary: acc)
  case Nil
  then show ?case by simp
next
  case (Cons p ps)
  obtain k v where p: "p = (k, v)" by (cases p)
  from Cons.prems p have kps: "k \<notin> fst ` set ps" and dps: "distinct (map fst ps)" by auto
  have ih: "map fst (writeAll (AList.update k v acc) ps) =
      map fst (AList.update k v acc) @ filter (\<lambda>k'. k' \<notin> fst ` set (AList.update k v acc)) (map fst ps)"
    using Cons.IH [OF dps] .
  have flt: "filter (\<lambda>k'. k' \<notin> fst ` set (AList.update k v acc)) (map fst ps)
      = filter (\<lambda>k'. k' \<notin> fst ` set acc) (map fst ps)"
    using kps by (intro filter_cong refl) (auto simp: AList.dom_update)
  show ?case
  proof (cases "k \<in> fst ` set acc")
    case True
    then show ?thesis using ih flt p by (simp add: update_keys_present)
  next
    case False
    then show ?thesis using ih flt p by (simp add: update_fresh)
  qed
qed

lemma writeAll_map_of:
  "distinct (map fst ps) \<Longrightarrow> map_of (writeAll acc ps) = map_of acc ++ map_of ps"
proof (induction ps arbitrary: acc)
  case Nil
  then show ?case by simp
next
  case (Cons p ps)
  obtain k v where p: "p = (k, v)" by (cases p)
  from Cons.prems p have kps: "k \<notin> fst ` set ps" and dps: "distinct (map fst ps)" by auto
  have none: "map_of ps k = None" using kps by (simp add: map_of_eq_None_iff)
  have "map_of (writeAll acc (p # ps)) = map_of (AList.update k v acc) ++ map_of ps"
    using Cons.IH [OF dps, of "AList.update k v acc"] p by simp
  also have "\<dots> = map_of acc ++ map_of (p # ps)"
  proof
    fix x
    show "(map_of (AList.update k v acc) ++ map_of ps) x = (map_of acc ++ map_of (p # ps)) x"
      using none p by (cases "x = k") (auto simp: map_add_def AList.update_conv' split: option.splits)
  qed
  finally show ?case .
qed

lemma writeAll_empty: "distinct (map fst ps) \<Longrightarrow> writeAll [] ps = ps"
proof (induction ps rule: rev_induct)
  case Nil
  then show ?case by simp
next
  case (snoc p ps)
  obtain k v where p: "p = (k, v)" by (cases p)
  from snoc.prems p have kps: "k \<notin> fst ` set ps" and dps: "distinct (map fst ps)" by auto
  show ?case using snoc.IH [OF dps] kps p by (simp add: writeAll_append update_fresh)
qed



subsection \<open>Reading and writing the store\<close>

lemma length_setField [simp]: "length (setField h a k v) = length h"
  by (simp add: setField_def)

lemma setField_nth_other [simp]: "b \<noteq> a \<Longrightarrow> setField h a k v ! b = h ! b"
  by (simp add: setField_def)

lemma setField_nth_same:
  "a < length h \<Longrightarrow> setField h a k v ! a = (h ! a)\<lparr>props := AList.update k v (props (h ! a))\<rparr>"
  by (simp add: setField_def)

lemma prefix_list_update: "prefix h0 h \<Longrightarrow> length h0 \<le> a \<Longrightarrow> prefix h0 (h[a := x])"
  by (auto simp: prefix_def list_update_append)

lemma prefix_setField: "prefix h0 h \<Longrightarrow> length h0 \<le> a \<Longrightarrow> prefix h0 (setField h a k v)"
  by (simp add: setField_def prefix_list_update)

lemma deref_prefix: "prefix h h' \<Longrightarrow> validRef h v \<Longrightarrow> deref h' v = deref h v"
  by (auto simp: prefix_def deref_def validRef_def nth_append split: val.splits)

lemma deref_update_other: "v \<noteq> Ref a \<Longrightarrow> deref (h[a := x]) v = deref h v"
  by (cases v) (auto simp: deref_def)

lemma deref_setField_other: "v \<noteq> Ref a \<Longrightarrow> deref (setField h a k w) v = deref h v"
  by (simp add: setField_def deref_update_other)

lemma reads_cong:
  assumes "deref h' v = deref h v"
  shows "ownProps h' v = ownProps h v" and "keysOf h' v = keysOf h v"
    and "hasOwnProperty h' v k = hasOwnProperty h v k" and "getProp h' v k = getProp h v k"
    and "instanceofImmutableValue h' v = instanceofImmutableValue h v"
    and "isArray h' v = isArray h v"
  using assms
  by (simp_all add: ownProps_def keysOf_def hasOwnProperty_def getProp_def
      instanceofImmutableValue_def isArray_def)

lemma assignAll_eq:
  "a < length h \<Longrightarrow> assignAll h a ps = h[a := (h ! a)\<lparr>props := writeAll (props (h ! a)) ps\<rparr>]"
proof (induction ps arbitrary: h)
  case Nil
  then show ?case by (simp add: assignAll_def)
next
  case (Cons p ps)
  obtain k v where p: "p = (k, v)" by (cases p)
  have step: "assignAll h a ((k, v) # ps) = assignAll (setField h a k v) a ps"
    by (simp add: assignAll_def)
  show ?case
    using Cons.prems Cons.IH [of "setField h a k v"]
    unfolding p step by (simp add: setField_nth_same) (simp add: setField_def)
qed

lemma assignAll_shape: "\<exists>x. assignAll h a ps = h[a := x]"
proof (cases "a < length h")
  case True
  then show ?thesis using assignAll_eq by blast
next
  case False
  then have "setField h a k v = h" for k v
    by (simp add: setField_def list_update_beyond)
  then have "assignAll h a ps = h"
    by (induction ps) (auto simp: assignAll_def)
  then show ?thesis using False by (intro exI [of _ "h ! a"]) (simp add: list_update_beyond)
qed

lemma mergeAllPropertiesInto_shape: "\<exists>x. mergeAllPropertiesInto h a srcs = h[a := x]"
proof (induction srcs arbitrary: h)
  case Nil
  show ?case by (intro exI [of _ "h ! a"]) (simp add: mergeAllPropertiesInto_def)
next
  case (Cons s srcs)
  obtain x where x: "assignAll h a (ownProps h s) = h[a := x]"
    using assignAll_shape by blast
  obtain y where "mergeAllPropertiesInto (h[a := x]) a srcs = (h[a := x])[a := y]"
    using Cons.IH by blast
  then show ?case using x by (intro exI [of _ y]) (simp add: mergeAllPropertiesInto_def)
qed

lemma mergeAllPropertiesInto_fresh:
  assumes "\<forall>s \<in> set srcs. validRef h s"
  shows "mergeAllPropertiesInto (h @ [ob]) (length h) srcs =
         h @ [ob\<lparr>props := foldl (\<lambda>acc s. writeAll acc (ownProps h s)) (props ob) srcs\<rparr>]"
  using assms
proof (induction srcs arbitrary: ob)
  case Nil
  then show ?case by (simp add: mergeAllPropertiesInto_def)
next
  case (Cons s srcs)
  let ?ob' = "ob\<lparr>props := writeAll (props ob) (ownProps h s)\<rparr>"
  have vs: "validRef h s" using Cons.prems by simp
  have "deref (h @ [ob]) s = deref h s"
    using vs by (intro deref_prefix) simp_all
  then have own: "ownProps (h @ [ob]) s = ownProps h s" by (rule reads_cong)
  have one: "assignAll (h @ [ob]) (length h) (ownProps (h @ [ob]) s) = h @ [?ob']"
    by (simp add: assignAll_eq own)
  have "mergeAllPropertiesInto (h @ [ob]) (length h) (s # srcs)
        = mergeAllPropertiesInto (h @ [?ob']) (length h) srcs"
    using one by (simp add: mergeAllPropertiesInto_def)
  also have "\<dots> = h @ [?ob'\<lparr>props := foldl (\<lambda>acc s. writeAll acc (ownProps h s)) (props ?ob') srcs\<rparr>]"
    using Cons.prems by (intro Cons.IH) simp
  finally show ?case by simp
qed

lemma ImmutableObject_new_eq:
  assumes "\<forall>s \<in> set srcs. validRef h s"
  shows "ImmutableObject_new dev h srcs =
         (Ref (length h),
          h @ [\<lparr>kind = ImmutableValue,
                props = foldl (\<lambda>acc s. writeAll acc (ownProps h s)) [] srcs,
                frozen = dev\<rparr>])"
  using mergeAllPropertiesInto_fresh [OF assms, of "\<lparr>kind = ImmutableValue, props = [], frozen = False\<rparr>"]
  by (simp add: ImmutableObject_new_def Let_def deepFreezeRootNode_def)

lemma ImmutableObject_new_prefix:
  "ImmutableObject_new dev h srcs = (r, h') \<Longrightarrow> prefix h0 h \<Longrightarrow> prefix h0 h'"
proof -
  assume new: "ImmutableObject_new dev h srcs = (r, h')" and pre: "prefix h0 h"
  let ?h1 = "h @ [\<lparr>kind = ImmutableValue, props = [], frozen = False\<rparr>]"
  obtain x where x: "mergeAllPropertiesInto ?h1 (length h) srcs = ?h1[length h := x]"
    using mergeAllPropertiesInto_shape by blast
  have p1: "prefix h0 ?h1" using pre by simp
  have len: "length h0 \<le> length h" using pre by (simp add: prefix_length_le)
  have "h' = ?h1[length h := x] \<or> h' = (?h1[length h := x])[length h := (?h1[length h := x] ! length h)\<lparr>frozen := True\<rparr>]"
    using new x by (auto simp: ImmutableObject_new_def Let_def deepFreezeRootNode_def split: if_splits)
  then show ?thesis
    using p1 len by (auto intro!: prefix_list_update)
qed



subsection \<open>The shallow merge\<close>

lemma instanceof_validRef: "instanceofImmutableValue h v \<Longrightarrow> validRef h v"
  by (cases v) (auto simp: instanceofImmutableValue_def deref_def validRef_def split: if_splits)

lemma typeof_object_validRef: "typeof h v = ''object'' \<Longrightarrow> validRef h v"
  by (cases v) (auto simp: typeof_def deref_def validRef_def split: if_splits)

lemma deref_fresh: "deref h (Ref (length h)) = None"
  by (simp add: deref_def)

lemma deref_new: "deref (h @ [ob]) (Ref (length h)) = Some ob"
  by (simp add: deref_def)

lemma ownProps_new: "ownProps (h @ [ob]) (Ref (length h)) = enumerationOrder (props ob)"
  by (simp add: ownProps_def deref_new)

lemma getProp_map_of:
  "k \<in> set (keysOf h v) \<Longrightarrow> map_of (ownProps h v) k = Some (getProp h v k)"
  by (auto simp: keysOf_def getProp_def map_of_eq_None_iff split: option.splits)

lemma set_accepts:
  assumes "instanceofImmutableValue h B" and "typeof h P = ''object''" and "\<not> isArray h P"
  shows "ImmutableObject_set dev h B P =
         (Inr (Ref (length h)),
          h @ [\<lparr>kind = ImmutableValue,
                props = writeAll (writeAll [] (ownProps h B)) (ownProps h P),
                frozen = dev\<rparr>])"
proof -
  have "P \<noteq> Undefined" using assms(2) by (auto simp: typeof_def)
  moreover have "\<forall>s \<in> set [B, P]. validRef h s"
    using assms by (simp add: instanceof_validRef typeof_object_validRef)
  ultimately show ?thesis
    using assms by (simp add: ImmutableObject_set_def ImmutableObject_new_eq)
qed


section \<open>The shallow merge and its sugar\<close>

subsection \<open>Order of keys\<close>

text \<open>
  The order of the keys after \<^verbatim>\<open>set\<close>. For an Immutable Value \<open>B\<close> and a patch \<open>P\<close> that
  passes the validation of \<^verbatim>\<open>set\<close>, in a store whose objects have ordinary property
  names, the call returns a new instance of \<^verbatim>\<open>ImmutableValue\<close>. Its keys are, in the
  order of enumeration, the keys of \<open>B\<close> followed by the keys that only \<open>P\<close> has. When no
  key that only \<open>P\<close> has is an array index, they are that sequence itself: the keys of \<open>B\<close>
  in the order of \<open>B\<close>, then the keys that only \<open>P\<close> has in the order of \<open>P\<close>, which is the
  order that the comment of \<^verbatim>\<open>set\<close> promises. A key of \<open>P\<close> carries the value of \<open>P\<close>
  (whatever it is, nothing is merged below the first level), a key of \<open>B\<close> alone carries
  the value of \<open>B\<close>.
\<close>

lemma set_key_order:
  assumes "instanceofImmutableValue h B"
    and "typeof h P = ''object''" and "\<not> isArray h P"
    and "distinct (keysOf h B)" and "distinct (keysOf h P)"
    and "ordinary_names h"
  shows "\<exists>r h'. ImmutableObject_set dev h B P = (Inr r, h')
           \<and> deref h r = None \<and> instanceofImmutableValue h' r
           \<and> keysOf h' r
               = enumerationKeys (keysOf h B @ filter (\<lambda>k. k \<notin> set (keysOf h B)) (keysOf h P))
           \<and> ((\<forall>k \<in> set (keysOf h P). k \<notin> set (keysOf h B) \<longrightarrow> \<not> isArrayIndex k)
                \<longrightarrow> keysOf h' r = keysOf h B @ filter (\<lambda>k. k \<notin> set (keysOf h B)) (keysOf h P))
           \<and> (\<forall>k \<in> set (keysOf h P). getProp h' r k = getProp h P k)
           \<and> (\<forall>k \<in> set (keysOf h B). k \<notin> set (keysOf h P) \<longrightarrow> getProp h' r k = getProp h B k)"
proof -
  let ?ps = "writeAll (ownProps h B) (ownProps h P)"
  let ?ob = "\<lparr>kind = ImmutableValue, props = ?ps, frozen = dev\<rparr>"
  let ?r = "Ref (length h)"
  let ?h' = "h @ [?ob]"
  let ?ks = "keysOf h B @ filter (\<lambda>k. k \<notin> set (keysOf h B)) (keysOf h P)"
  have dB: "distinct (map fst (ownProps h B))" and dP: "distinct (map fst (ownProps h P))"
    using assms(4,5) by (simp_all add: keysOf_def)
  have base: "writeAll [] (ownProps h B) = ownProps h B"
    using dB by (rule writeAll_empty)
  have own: "ownProps ?h' ?r = enumerationOrder ?ps"
    by (simp add: ownProps_new)
  have ks: "map fst ?ps = ?ks"
    using writeAll_keys [OF dP, of "ownProps h B"] by (simp add: keysOf_def)
  have dps: "distinct (map fst ?ps)"
    unfolding ks using assms(4,5) by auto
  have keys: "keysOf ?h' ?r = enumerationKeys ?ks"
    using keysOf_entries [OF own] by (simp add: ks)
  have plain: "keysOf ?h' ?r = ?ks"
    if "\<forall>k \<in> set (keysOf h P). k \<notin> set (keysOf h B) \<longrightarrow> \<not> isArrayIndex k"
  proof -
    have "\<forall>k \<in> set (filter (\<lambda>k. k \<notin> set (keysOf h B)) (keysOf h P)). \<not> isArrayIndex k"
      using that by simp
    then show ?thesis unfolding keys by (simp add: enumerationKeys_append_ordinary)
  qed
  have mp: "map_of ?ps = map_of (ownProps h B) ++ map_of (ownProps h P)"
    using writeAll_map_of [OF dP, of "ownProps h B"] .
  have gp: "getProp ?h' ?r k = (case map_of ?ps k of Some x \<Rightarrow> x | None \<Rightarrow> Undefined)" for k
    using own dps by (rule getProp_entries)
  have inP: "getProp ?h' ?r k = getProp h P k" if "k \<in> set (keysOf h P)" for k
    using getProp_map_of [OF that] by (simp add: gp mp)
  have inB: "getProp ?h' ?r k = getProp h B k" if "k \<in> set (keysOf h B)" "k \<notin> set (keysOf h P)" for k
  proof -
    have "map_of (ownProps h P) k = None"
      using that(2) by (simp add: keysOf_def map_of_eq_None_iff)
    then show ?thesis
      using getProp_map_of [OF that(1)] by (simp add: gp mp map_add_def)
  qed
  have "ImmutableObject_set dev h B P = (Inr ?r, ?h')"
    using set_accepts [OF assms(1-3), of dev] by (simp add: base)
  moreover have "instanceofImmutableValue ?h' ?r"
    by (simp add: instanceofImmutableValue_def deref_new)
  ultimately show ?thesis
    using keys plain inP inB deref_fresh by blast
qed

lemma ordinary_shallow_heap: "ordinary_names shallow_heap"
  by code_simp

lemma set_key_order_example:
  "instanceofImmutableValue shallow_heap (Ref 0) \<and> typeof shallow_heap (Ref 1) = ''object''
   \<and> \<not> isArray shallow_heap (Ref 1)
   \<and> distinct (keysOf shallow_heap (Ref 0)) \<and> distinct (keysOf shallow_heap (Ref 1))
   \<and> (\<exists>r h'. ImmutableObject_set True shallow_heap (Ref 0) (Ref 1) = (Inr r, h')
         \<and> keysOf h' r = [''a'', ''b'', ''c'', ''d'']
         \<and> getProp h' r ''b'' = Str ''x'' \<and> getProp h' r ''d'' = Str ''y''
         \<and> getProp h' r ''a'' = Num 1 \<and> getProp h' r ''c'' = Num 3)"
proof -
  have 1: "instanceofImmutableValue shallow_heap (Ref 0)"
    by (simp add: shallow_heap_def instanceofImmutableValue_def deref_def)
  have 2: "typeof shallow_heap (Ref 1) = ''object''"
    by (simp add: shallow_heap_def typeof_def deref_def)
  have 3: "\<not> isArray shallow_heap (Ref 1)"
    by (simp add: shallow_heap_def isArray_def deref_def)
  have kB: "keysOf shallow_heap (Ref 0) = [''a'', ''b'', ''c'']"
    by code_simp
  have kP: "keysOf shallow_heap (Ref 1) = [''b'', ''d'']"
    by code_simp
  have 4: "distinct (keysOf shallow_heap (Ref 0))" and 5: "distinct (keysOf shallow_heap (Ref 1))"
    unfolding kB kP by simp_all
  have ni: "\<not> isArrayIndex ''d''" by code_simp
  have vP: "getProp shallow_heap (Ref 1) ''b'' = Str ''x''" "getProp shallow_heap (Ref 1) ''d'' = Str ''y''"
    by code_simp+
  have vB: "getProp shallow_heap (Ref 0) ''a'' = Num 1" "getProp shallow_heap (Ref 0) ''c'' = Num 3"
    by code_simp+
  from set_key_order [OF 1 2 3 4 5 ordinary_shallow_heap, of True]
  obtain r h' where res: "ImmutableObject_set True shallow_heap (Ref 0) (Ref 1) = (Inr r, h')"
    and keys: "(\<forall>k \<in> set (keysOf shallow_heap (Ref 1)). k \<notin> set (keysOf shallow_heap (Ref 0))
                  \<longrightarrow> \<not> isArrayIndex k)
               \<longrightarrow> keysOf h' r = keysOf shallow_heap (Ref 0)
                 @ filter (\<lambda>k. k \<notin> set (keysOf shallow_heap (Ref 0))) (keysOf shallow_heap (Ref 1))"
    and inP: "\<forall>k \<in> set (keysOf shallow_heap (Ref 1)). getProp h' r k = getProp shallow_heap (Ref 1) k"
    and inB: "\<forall>k \<in> set (keysOf shallow_heap (Ref 0)). k \<notin> set (keysOf shallow_heap (Ref 1))
                \<longrightarrow> getProp h' r k = getProp shallow_heap (Ref 0) k"
    by blast
  have "keysOf h' r = [''a'', ''b'', ''c'', ''d'']"
    using keys ni unfolding kB kP by simp
  moreover have "getProp h' r ''b'' = Str ''x''" "getProp h' r ''d'' = Str ''y''"
    using inP unfolding kP vP [symmetric] by simp_all
  moreover have "getProp h' r ''a'' = Num 1" "getProp h' r ''c'' = Num 3"
    using inB unfolding kB kP vB [symmetric] by simp_all
  ultimately show ?thesis
    using 1 2 3 4 5 res by blast
qed

text \<open>
  \<^bold>\<open>C1\<close> (order preservation of \<^verbatim>\<open>set\<close>) does not hold of a key that only the patch has
  and that is an array index. \<^verbatim>\<open>set({a: 1}, {'1': 'y'})\<close> creates the property \<open>a\<close> of
  the base first and the property \<open>1\<close> of the patch second, and the keys of the value it
  returns are \<^verbatim>\<open>['1', 'a']\<close>: the new key is listed before the key of the base, where the
  keys of the base followed by the new keys are \<^verbatim>\<open>['a', '1']\<close>.
\<close>

theorem set_lists_array_index_key_first:
  "ImmutableObject_set True index_heap (Ref 0) (Ref 1) =
     (Inr (Ref 2),
      index_heap @
      [\<lparr>kind = ImmutableValue, props = [(''a'', Num 1), (''1'', Str ''y'')], frozen = True\<rparr>])
   \<and> keysOf (index_heap @
        [\<lparr>kind = ImmutableValue, props = [(''a'', Num 1), (''1'', Str ''y'')], frozen = True\<rparr>])
        (Ref 2) = [''1'', ''a'']
   \<and> keysOf index_heap (Ref 0)
       @ filter (\<lambda>k. k \<notin> set (keysOf index_heap (Ref 0))) (keysOf index_heap (Ref 1))
       = [''a'', ''1'']"
  by code_simp

subsection \<open>Rejected and accepted patches\<close>

lemma set_rejects:
  assumes "instanceofImmutableValue h B" and "typeof h P \<noteq> ''object'' \<or> isArray h P"
  shows "ImmutableObject_set dev h B P = (Inl InvalidPatch, h)"
  using assms by (auto simp: ImmutableObject_set_def)

text \<open>
  \<^bold>\<open>C2\<close> (invalid patch rejection), as the code has it. The guard of \<^verbatim>\<open>set\<close> is
  \<^verbatim>\<open>typeof put === 'object' && put !== undefined && !Array.isArray(put)\<close>, and
  \<^verbatim>\<open>typeof null\<close> is \<^verbatim>\<open>'object'\<close>: a patch that is \<^verbatim>\<open>undefined\<close>, an array, or
  not of type \<^verbatim>\<open>'object'\<close> at all is rejected with the store untouched, while \<^verbatim>\<open>null\<close>
  (which the parameter's documented type \<^verbatim>\<open>?object\<close> admits) passes the guard and the
  call returns a new Immutable Value.
\<close>

theorem set_rejects_undefined_and_arrays:
  assumes "instanceofImmutableValue h B"
  shows "(P = Undefined \<or> isArray h P \<or> typeof h P \<noteq> ''object''
            \<longrightarrow> ImmutableObject_set dev h B P = (Inl InvalidPatch, h))
       \<and> (\<exists>r h'. ImmutableObject_set dev h B Null = (Inr r, h') \<and> prefix h h'
             \<and> instanceofImmutableValue h' r)"
proof -
  have "typeof h Undefined \<noteq> ''object''" by (simp add: typeof_def)
  then have rej: "P = Undefined \<or> isArray h P \<or> typeof h P \<noteq> ''object''
      \<longrightarrow> ImmutableObject_set dev h B P = (Inl InvalidPatch, h)"
    using set_rejects [OF assms, of P dev] by auto
  have "typeof h Null = ''object''" and "\<not> isArray h Null"
    by (simp_all add: typeof_def isArray_def deref_def)
  from set_accepts [OF assms this, of dev]
  have "\<exists>r h'. ImmutableObject_set dev h B Null = (Inr r, h') \<and> prefix h h'
             \<and> instanceofImmutableValue h' r"
    by (simp add: instanceofImmutableValue_def deref_new)
  with rej show ?thesis by blast
qed

theorem set_rejects_undefined_and_arrays_witness:
  "instanceofImmutableValue shallow_heap (Ref 0) \<and> isArray shallow_heap (Ref 2)
   \<and> ImmutableObject_set True shallow_heap (Ref 0) (Ref 2) = (Inl InvalidPatch, shallow_heap)
   \<and> ImmutableObject_set True shallow_heap (Ref 0) Undefined = (Inl InvalidPatch, shallow_heap)"
proof -
  have 1: "instanceofImmutableValue shallow_heap (Ref 0)"
    by (simp add: shallow_heap_def instanceofImmutableValue_def deref_def)
  have 2: "isArray shallow_heap (Ref 2)"
    by (simp add: shallow_heap_def isArray_def deref_def)
  show ?thesis
    using 1 2 set_rejects_undefined_and_arrays [OF 1, of "Ref 2" True]
      set_rejects_undefined_and_arrays [OF 1, of Undefined True]
    by simp
qed

text \<open>The claim as stated fails at \<^verbatim>\<open>set(B, null)\<close>: no error, a copy of \<open>B\<close> comes back.\<close>

theorem set_null_patch_counterexample:
  "ImmutableObject_set True shallow_heap (Ref 0) Null =
     (Inr (Ref 4),
      shallow_heap @
      [\<lparr>kind = ImmutableValue, props = [(''a'', Num 1), (''b'', Num 2), (''c'', Num 3)], frozen = True\<rparr>])"
  by code_simp

text \<open>
  \<^bold>\<open>C10\<close> (the empty patch is an identity up to instance identity). For an Immutable
  Value \<open>B\<close> and a patch without own properties, \<^verbatim>\<open>set\<close> returns a new instance, at an
  address that the store did not have before (so distinct from \<open>B\<close> and from every
  existing object), whose entries are those of \<open>B\<close>, keys in order and a value at each
  key.
\<close>

theorem set_empty_patch_identity:
  assumes "instanceofImmutableValue h B"
    and "typeof h P = ''object''" and "\<not> isArray h P" and "keysOf h P = []"
    and "distinct (keysOf h B)"
  shows "\<exists>r h'. ImmutableObject_set dev h B P = (Inr r, h')
           \<and> r \<noteq> B \<and> deref h r = None \<and> prefix h h'
           \<and> instanceofImmutableValue h' r \<and> ownProps h' r = ownProps h B"
proof -
  let ?ob = "\<lparr>kind = ImmutableValue, props = ownProps h B, frozen = dev\<rparr>"
  have "ownProps h P = []" using assms(4) by (simp add: keysOf_def)
  moreover have "writeAll [] (ownProps h B) = ownProps h B"
    using assms(5) by (intro writeAll_empty) (simp add: keysOf_def)
  ultimately have res: "ImmutableObject_set dev h B P = (Inr (Ref (length h)), h @ [?ob])"
    using set_accepts [OF assms(1-3), of dev] by simp
  have "Ref (length h) \<noteq> B"
    using assms(1) by (auto simp: instanceofImmutableValue_def deref_def)
  moreover have "instanceofImmutableValue (h @ [?ob]) (Ref (length h))"
    by (simp add: instanceofImmutableValue_def deref_new)
  moreover have "ownProps (h @ [?ob]) (Ref (length h)) = ownProps h B"
    by (simp add: ownProps_new)
  ultimately show ?thesis
    using res deref_fresh by (intro exI [of _ "Ref (length h)"] exI [of _ "h @ [?ob]"]) simp
qed

theorem set_empty_patch_identity_witness:
  "instanceofImmutableValue shallow_heap (Ref 0) \<and> typeof shallow_heap (Ref 3) = ''object''
   \<and> \<not> isArray shallow_heap (Ref 3) \<and> keysOf shallow_heap (Ref 3) = []
   \<and> distinct (keysOf shallow_heap (Ref 0))
   \<and> (\<exists>r h'. ImmutableObject_set True shallow_heap (Ref 0) (Ref 3) = (Inr r, h') \<and> r \<noteq> Ref 0
         \<and> ownProps h' r = [(''a'', Num 1), (''b'', Num 2), (''c'', Num 3)])"
proof -
  have 1: "instanceofImmutableValue shallow_heap (Ref 0)"
    by (simp add: shallow_heap_def instanceofImmutableValue_def deref_def)
  have 2: "typeof shallow_heap (Ref 3) = ''object''"
    by (simp add: shallow_heap_def typeof_def deref_def)
  have 3: "\<not> isArray shallow_heap (Ref 3)"
    by (simp add: shallow_heap_def isArray_def deref_def)
  have 4: "keysOf shallow_heap (Ref 3) = []"
    by code_simp
  have oB: "ownProps shallow_heap (Ref 0) = [(''a'', Num 1), (''b'', Num 2), (''c'', Num 3)]"
    by code_simp
  have 5: "distinct (keysOf shallow_heap (Ref 0))"
    unfolding keysOf_def oB by simp
  from set_empty_patch_identity [OF 1 2 3 4 5, of True] oB
  have "\<exists>r h'. ImmutableObject_set True shallow_heap (Ref 0) (Ref 3) = (Inr r, h') \<and> r \<noteq> Ref 0
         \<and> ownProps h' r = [(''a'', Num 1), (''b'', Num 2), (''c'', Num 3)]"
    by auto
  then show ?thesis using 1 2 3 4 5 by blast
qed

subsection \<open>Deleting a property\<close>

lemma ownProps_Ref: "a < length h \<Longrightarrow> ownProps h (Ref a) = enumerationOrder (props (h ! a))"
  by (simp add: ownProps_def deref_def)

lemma instanceof_Ref:
  "a < length h \<Longrightarrow> instanceofImmutableValue h (Ref a) = (kind (h ! a) = ImmutableValue)"
  by (simp add: instanceofImmutableValue_def deref_def)

lemma entries_of_keys:
  fixes ps :: "(string \<times> val) list"
  shows "distinct (map fst ps) \<Longrightarrow>
   map (\<lambda>k. (k, case map_of ps k of Some x \<Rightarrow> x | None \<Rightarrow> Undefined)) (map fst ps) = ps"
proof (induction ps)
  case Nil
  then show ?case by simp
next
  case (Cons p ps)
  define F where "F qs = (\<lambda>k'. (k', case map_of qs k' of Some x \<Rightarrow> x | None \<Rightarrow> Undefined))"
    for qs :: "(string \<times> val) list"
  obtain k v where p: "p = (k, v)" by (cases p)
  from Cons.prems p have kps: "k \<notin> fst ` set ps" and dps: "distinct (map fst ps)" by auto
  have tail: "map (F (p # ps)) (map fst ps) = map (F ps) (map fst ps)"
  proof (rule map_cong [OF refl])
    fix k' assume "k' \<in> set (map fst ps)"
    then have "k' \<noteq> k" using kps by auto
    then show "F (p # ps) k' = F ps k'" using p by (simp add: F_def)
  qed
  have "map (F (p # ps)) (map fst (p # ps)) = F (p # ps) k # map (F (p # ps)) (map fst ps)"
    using p by simp
  also have "F (p # ps) k = p" using p by (simp add: F_def)
  also have "map (F (p # ps)) (map fst ps) = map (F ps) (map fst ps)" by (rule tail)
  also have "map (F ps) (map fst ps) = ps" using Cons.IH [OF dps] by (simp add: F_def)
  finally show ?case by (simp add: F_def)
qed

lemma deleteProperty_loop_eq:
  assumes "copy < length h" and "ob \<noteq> Ref copy"
  shows "deleteProperty_loop h copy ob d keys =
         h[copy := (h ! copy)\<lparr>props := writeAll (props (h ! copy))
             (map (\<lambda>k. (k, getProp h ob k)) (filter (\<lambda>k. k \<noteq> d \<and> hasOwnProperty h ob k) keys))\<rparr>]"
  using assms(1)
proof (induction keys arbitrary: h)
  case Nil
  then show ?case by simp
next
  case (Cons key keys)
  show ?case
  proof (cases "key \<noteq> d \<and> hasOwnProperty h ob key")
    case False
    then show ?thesis using Cons.IH [OF Cons.prems] by auto
  next
    case True
    let ?h1 = "setField h copy key (getProp h ob key)"
    have dr: "deref ?h1 ob = deref h ob"
      using assms(2) by (rule deref_setField_other)
    have rd: "getProp ?h1 ob k = getProp h ob k" "hasOwnProperty ?h1 ob k = hasOwnProperty h ob k" for k
      using reads_cong [OF dr] by simp_all
    have len: "copy < length ?h1" using Cons.prems by simp
    show ?thesis
      using True Cons.IH [OF len] Cons.prems
      by (simp add: rd setField_nth_same) (simp add: setField_def)
  qed
qed

lemma deleteProperty_eq:
  assumes "validRef h B" and "distinct (keysOf h B)"
  shows "ImmutableObject_deleteProperty dev h B d =
         (Inr (Ref (Suc (length h))),
          h @ [\<lparr>kind = PlainObject, props = filter (\<lambda>(k, v). k \<noteq> d) (ownProps h B), frozen = False\<rparr>,
               \<lparr>kind = ImmutableValue, props = filter (\<lambda>(k, v). k \<noteq> d) (ownProps h B), frozen = dev\<rparr>])"
proof -
  let ?h1 = "h @ [emptyObject]"
  let ?ps = "filter (\<lambda>(k, v). k \<noteq> d) (ownProps h B)"
  have dr: "deref ?h1 B = deref h B"
    using assms(1) by (intro deref_prefix) simp_all
  have rd: "keysOf ?h1 B = keysOf h B" "getProp ?h1 B k = getProp h B k"
    "hasOwnProperty ?h1 B k = hasOwnProperty h B k" for k
    using reads_cong [OF dr] by simp_all
  have ne: "B \<noteq> Ref (length h)" using assms(1) by (auto simp: validRef_def)
  have dps: "distinct (map fst (ownProps h B))" using assms(2) by (simp add: keysOf_def)
  have "map (\<lambda>k. (k, getProp h B k)) (filter (\<lambda>k. k \<noteq> d \<and> hasOwnProperty h B k) (keysOf h B))
        = filter (\<lambda>(k, v). k \<noteq> d) (map (\<lambda>k. (k, getProp h B k)) (keysOf h B))"
    by (simp add: filter_map comp_def hasOwnProperty_def cong: filter_cong)
  also have "map (\<lambda>k. (k, getProp h B k)) (keysOf h B) = ownProps h B"
    using entries_of_keys [OF dps] by (simp add: keysOf_def getProp_def)
  finally have ents: "map (\<lambda>k. (k, getProp h B k))
      (filter (\<lambda>k. k \<noteq> d \<and> hasOwnProperty h B k) (keysOf h B)) = ?ps" .
  have dfl: "distinct (map fst ?ps)"
    using dps by (simp add: distinct_map_filter)
  have "deleteProperty_loop ?h1 (length h) B d (keysOf ?h1 B)
        = ?h1[length h := (?h1 ! length h)\<lparr>props := writeAll (props (?h1 ! length h)) ?ps\<rparr>]"
    using ne deleteProperty_loop_eq [of "length h" ?h1 B d "keysOf ?h1 B"]
    unfolding rd ents by simp
  then have loop: "deleteProperty_loop ?h1 (length h) B d (keysOf ?h1 B)
        = h @ [\<lparr>kind = PlainObject, props = ?ps, frozen = False\<rparr>]"
    by (simp add: writeAll_empty [OF dfl] emptyObject_def)
  let ?h2 = "h @ [\<lparr>kind = PlainObject, props = ?ps, frozen = False\<rparr>]"
  have "\<forall>s \<in> set [Ref (length h)]. validRef ?h2 s" by (simp add: validRef_def)
  moreover have "ownProps ?h2 (Ref (length h)) = ?ps"
    by (simp add: ownProps_new enumerationOrder_filter)
  ultimately have "ImmutableObject_new dev ?h2 [Ref (length h)] =
        (Ref (Suc (length h)), ?h2 @ [\<lparr>kind = ImmutableValue, props = ?ps, frozen = dev\<rparr>])"
    using ImmutableObject_new_eq [of "[Ref (length h)]" ?h2 dev]
    by (simp add: writeAll_empty [OF dfl])
  then show ?thesis
    by (simp add: ImmutableObject_deleteProperty_def Let_def loop)
qed

text \<open>
  \<^bold>\<open>C7\<close> (\<^verbatim>\<open>deleteProperty\<close>), for objects with ordinary property names. For an
  Immutable Value \<open>B\<close> and a key \<open>name\<close>, in a store in which no object has an own property
  named \<^verbatim>\<open>hasOwnProperty\<close> or \<^verbatim>\<open>__proto__\<close>, the call returns a new instance of
  \<^verbatim>\<open>ImmutableValue\<close> whose entries are the entries of \<open>B\<close> without the one keyed \<open>name\<close>,
  in the order of \<open>B\<close>; when \<open>name\<close> is not a key of \<open>B\<close> the result has every entry of
  \<open>B\<close>. (The loop asks \<^verbatim>\<open>immutableObject.hasOwnProperty(key)\<close> through the object: with
  an own property of that name the call reaches that property and not the method.)
\<close>

lemma deleteProperty_removes_one_entry:
  assumes "instanceofImmutableValue h B" and "distinct (keysOf h B)" and "ordinary_names h"
  shows "\<exists>r h'. ImmutableObject_deleteProperty dev h B name = (Inr r, h')
           \<and> deref h r = None \<and> prefix h h' \<and> instanceofImmutableValue h' r
           \<and> ownProps h' r = filter (\<lambda>(k, v). k \<noteq> name) (ownProps h B)
           \<and> (name \<notin> set (keysOf h B) \<longrightarrow> ownProps h' r = ownProps h B)"
proof -
  let ?ps = "filter (\<lambda>(k, v). k \<noteq> name) (ownProps h B)"
  let ?r = "Ref (Suc (length h))"
  let ?h' = "h @ [\<lparr>kind = PlainObject, props = ?ps, frozen = False\<rparr>,
                  \<lparr>kind = ImmutableValue, props = ?ps, frozen = dev\<rparr>]"
  have res: "ImmutableObject_deleteProperty dev h B name = (Inr ?r, ?h')"
    using assms(1,2) by (intro deleteProperty_eq instanceof_validRef)
  have new: "deref h ?r = None" by (simp add: deref_def)
  have pre: "prefix h ?h'" by simp
  have inst: "instanceofImmutableValue ?h' ?r" and own: "ownProps ?h' ?r = ?ps"
    by (simp_all add: instanceof_Ref ownProps_Ref nth_append enumerationOrder_filter)
  have "name \<notin> set (keysOf h B) \<Longrightarrow> ?ps = ownProps h B"
    by (intro filter_True) (force simp: keysOf_def)
  then have idc: "name \<notin> set (keysOf h B) \<longrightarrow> ownProps ?h' ?r = ownProps h B"
    unfolding own by blast
  show ?thesis
    using res new pre inst own idc by blast
qed

lemma deleteProperty_removes_one_entry_example:
  "instanceofImmutableValue shallow_heap (Ref 0) \<and> distinct (keysOf shallow_heap (Ref 0))
   \<and> (\<exists>r h'. ImmutableObject_deleteProperty True shallow_heap (Ref 0) ''b'' = (Inr r, h')
         \<and> ownProps h' r = [(''a'', Num 1), (''c'', Num 3)])
   \<and> (\<exists>r h'. ImmutableObject_deleteProperty True shallow_heap (Ref 0) ''z'' = (Inr r, h')
         \<and> ownProps h' r = [(''a'', Num 1), (''b'', Num 2), (''c'', Num 3)])"
proof -
  have 1: "instanceofImmutableValue shallow_heap (Ref 0)"
    by (simp add: shallow_heap_def instanceofImmutableValue_def deref_def)
  have oB: "ownProps shallow_heap (Ref 0) = [(''a'', Num 1), (''b'', Num 2), (''c'', Num 3)]"
    by code_simp
  have 2: "distinct (keysOf shallow_heap (Ref 0))"
    unfolding keysOf_def oB by simp
  have "\<exists>r h'. ImmutableObject_deleteProperty True shallow_heap (Ref 0) ''b'' = (Inr r, h')
         \<and> ownProps h' r = [(''a'', Num 1), (''c'', Num 3)]"
    using deleteProperty_removes_one_entry [OF 1 2 ordinary_shallow_heap, of True "''b''"] unfolding oB by auto
  moreover have "\<exists>r h'. ImmutableObject_deleteProperty True shallow_heap (Ref 0) ''z'' = (Inr r, h')
         \<and> ownProps h' r = [(''a'', Num 1), (''b'', Num 2), (''c'', Num 3)]"
    using deleteProperty_removes_one_entry [OF 1 2 ordinary_shallow_heap, of True "''z''"] unfolding oB by auto
  ultimately show ?thesis using 1 2 by blast
qed

section \<open>Properties of the recursive merge\<close>

subsection \<open>Only fresh objects are written\<close>

lemma grows_at_refl: "grows_at h a h"
proof -
  have "h = h[a := (h ! a)\<lparr>props := props (h ! a)\<rparr>] @ []" by simp
  then show ?thesis unfolding grows_at_def by blast
qed

lemma grows_at_setField: "grows_at h a (setField h a k v)"
proof -
  have "setField h a k v = h[a := (h ! a)\<lparr>props := AList.update k v (props (h ! a))\<rparr>] @ []"
    by (simp add: setField_def)
  then show ?thesis unfolding grows_at_def by blast
qed

lemma grows_at_trans:
  assumes "grows_at h a h1" and "grows_at h1 a h2" and "a < length h"
  shows "grows_at h a h2"
proof -
  from assms(1) obtain ps1 zs1 where h1: "h1 = h[a := (h ! a)\<lparr>props := ps1\<rparr>] @ zs1"
    unfolding grows_at_def by blast
  from assms(2) obtain ps2 zs2 where h2: "h2 = h1[a := (h1 ! a)\<lparr>props := ps2\<rparr>] @ zs2"
    unfolding grows_at_def by blast
  have "h2 = h[a := (h ! a)\<lparr>props := ps2\<rparr>] @ (zs1 @ zs2)"
    using assms(3) by (simp add: h1 h2 list_update_append nth_append)
  then show ?thesis unfolding grows_at_def by blast
qed

lemma prefix_grows_at: "prefix h h1 \<Longrightarrow> grows_at h a h1"
proof -
  assume "prefix h h1"
  then obtain zs where "h1 = h @ zs" by (auto simp: prefix_def)
  then have "h1 = h[a := (h ! a)\<lparr>props := props (h ! a)\<rparr>] @ zs" by simp
  then show ?thesis unfolding grows_at_def by blast
qed

lemma grows_at_length: "grows_at h a h' \<Longrightarrow> length h \<le> length h'"
  by (auto simp: grows_at_def)

lemma grows_at_nth_other: "grows_at h a h' \<Longrightarrow> b < length h \<Longrightarrow> b \<noteq> a \<Longrightarrow> h' ! b = h ! b"
  by (auto simp: grows_at_def nth_append)

lemma grows_at_nth_same:
  "grows_at h a h' \<Longrightarrow> a < length h \<Longrightarrow> \<exists>ps. h' ! a = (h ! a)\<lparr>props := ps\<rparr>"
  by (auto simp: grows_at_def nth_append)

lemma grows_at_prefix:
  assumes "grows_at h a h'" and "prefix h0 h" and "length h0 \<le> a"
  shows "prefix h0 h'"
proof -
  from assms(1) obtain ps zs where h': "h' = h[a := (h ! a)\<lparr>props := ps\<rparr>] @ zs"
    unfolding grows_at_def by blast
  have "prefix h0 (h[a := (h ! a)\<lparr>props := ps\<rparr>])"
    using assms(2,3) by (rule prefix_list_update)
  then show ?thesis unfolding h' by (rule prefix_prefix)
qed

lemma grows_at_fresh: "grows_at (h @ [ob]) (length h) h' \<Longrightarrow> prefix h h'"
  by (rule grows_at_prefix [where h = "h @ [ob]" and a = "length h"]) simp_all

lemma newKeys_loop_grows: "grows_at h tnf (newKeys_loop h tnf ob put ks)"
proof (induction ks arbitrary: h)
  case Nil
  show ?case by (simp add: grows_at_refl)
next
  case (Cons k ks)
  show ?case
  proof (cases "hasOwnProperty h ob k")
    case True
    then show ?thesis using Cons.IH by simp
  next
    case False
    let ?h1 = "setField h tnf k (getProp h put k)"
    show ?thesis
    proof (cases "tnf < length h")
      case True
      have "grows_at h tnf (newKeys_loop ?h1 tnf ob put ks)"
        using grows_at_setField Cons.IH True by (rule grows_at_trans)
      then show ?thesis using False by simp
    next
      case out: False
      then have "?h1 = h" by (simp add: setField_def list_update_beyond)
      then show ?thesis using False Cons.IH [of h] by simp
    qed
  qed
qed

lemma keys_loop_grows:
  assumes IH: "\<And>h ob put r h'. p_setDeep n dev isT h ob put = Some (r, h') \<Longrightarrow> prefix h h'"
  shows "keys_loop n dev isT h tnf ob put keys = Some (r, h') \<Longrightarrow> tnf < length h
         \<Longrightarrow> grows_at h tnf h'"
proof (induction keys arbitrary: h)
  case Nil
  then show ?case by (simp add: grows_at_refl)
next
  case (Cons key keys)
  let ?vo = "getProp h ob key" and ?vp = "getProp h put key"
  consider (absent) "\<not> hasOwnProperty h put key"
    | (leaf) "hasOwnProperty h put key" "isT ?vo (deref h ?vo) \<or> isT ?vp (deref h ?vp)"
    | (rec) "hasOwnProperty h put key" "\<not> isT ?vo (deref h ?vo)" "\<not> isT ?vp (deref h ?vp)"
    by blast
  then show ?case
  proof cases
    case absent
    let ?h1 = "setField h tnf key ?vo"
    have "keys_loop n dev isT ?h1 tnf ob put keys = Some (r, h')"
      using Cons.prems(1) absent by simp
    then have "grows_at ?h1 tnf h'" using Cons.prems(2) by (intro Cons.IH) simp_all
    with grows_at_setField show ?thesis using Cons.prems(2) by (rule grows_at_trans)
  next
    case leaf
    let ?h1 = "setField h tnf key ?vp"
    have "keys_loop n dev isT ?h1 tnf ob put keys = Some (r, h')"
      using Cons.prems(1) leaf by auto
    then have "grows_at ?h1 tnf h'" using Cons.prems(2) by (intro Cons.IH) simp_all
    with grows_at_setField show ?thesis using Cons.prems(2) by (rule grows_at_trans)
  next
    case rec
    from Cons.prems(1) rec obtain res hi where
      call: "p_setDeep n dev isT h ?vo ?vp = Some (res, hi)"
      by (auto split: option.splits)
    have pre: "prefix h hi" using IH [OF call] .
    show ?thesis
    proof (cases res)
      case (Inl e)
      then have "h' = hi" using Cons.prems(1) rec call by simp
      then show ?thesis using pre by (simp add: prefix_grows_at)
    next
      case (Inr v)
      let ?h1 = "setField hi tnf key v"
      have len: "tnf < length hi" using Cons.prems(2) pre prefix_length_le by fastforce
      have "keys_loop n dev isT ?h1 tnf ob put keys = Some (r, h')"
        using Cons.prems(1) rec call Inr by simp
      then have "grows_at ?h1 tnf h'" using len by (intro Cons.IH) simp_all
      with grows_at_setField have "grows_at hi tnf h'" using len by (rule grows_at_trans)
      with prefix_grows_at [OF pre] show ?thesis using Cons.prems(2) by (rule grows_at_trans)
    qed
  qed
qed

lemma p_setDeep_prefix: "p_setDeep n dev isT h ob put = Some (r, h') \<Longrightarrow> prefix h h'"
proof (induction n arbitrary: h ob put r h')
  case 0
  then show ?case by simp
next
  case (Suc n)
  show ?case
  proof (cases "checkMergeObjectArgs h ob put")
    case False
    then show ?thesis using Suc.prems by simp
  next
    case True
    let ?t = "length h" and ?h1 = "h @ [emptyObject]"
    from Suc.prems True obtain res h2 where
      loop: "keys_loop n dev isT ?h1 ?t ob put (keysOf ?h1 ob) = Some (res, h2)"
      by (auto simp: Let_def split: option.splits)
    have lt: "?t < length ?h1" by simp
    have g2: "grows_at ?h1 ?t h2"
      using Suc.IH loop lt by (rule keys_loop_grows)
    then have p2: "prefix h h2" by (rule grows_at_fresh)
    show ?thesis
    proof (cases res)
      case (Inl e)
      then show ?thesis using Suc.prems True loop p2 by (simp add: Let_def)
    next
      case (Inr u)
      let ?h3 = "newKeys_loop h2 ?t ob put (keysOf h2 put)"
      have p3: "prefix h ?h3"
        using newKeys_loop_grows p2 by (rule grows_at_prefix) simp
      show ?thesis
        using Suc.prems True loop Inr p3
        by (auto simp: Let_def split: if_splits prod.splits dest: ImmutableObject_new_prefix)
    qed
  qed
qed

subsection \<open>What the first loop writes\<close>

lemma wf_heap_distinct: "wf_heap h \<Longrightarrow> distinct (keysOf h v)"
  by (cases v)
    (auto simp: wf_heap_def keysOf_def ownProps_def deref_def list_all_iff distinct_enumerationOrder)

lemma wf_heap_validRef: "wf_heap h \<Longrightarrow> validRef h (getProp h v k)"
proof -
  assume wf: "wf_heap h"
  show ?thesis
  proof (cases "map_of (ownProps h v) k")
    case None
    then show ?thesis by (simp add: getProp_def validRef_def)
  next
    case (Some x)
    then have in_props: "(k, x) \<in> set (ownProps h v)" by (rule map_of_SomeD)
    then obtain ob where "deref h v = Some ob" and "(k, x) \<in> set (props ob)"
      by (cases "deref h v") (auto simp: ownProps_def)
    moreover from this have "ob \<in> set h"
      by (cases v) (auto simp: deref_def split: if_splits)
    ultimately have "validRef h x"
      using wf by (auto simp: wf_heap_def list_all_iff)
    then show ?thesis using Some by (simp add: getProp_def)
  qed
qed

lemma keys_loop_frame:
  "keys_loop n dev isT h tnf ob put keys = Some (r, h') \<Longrightarrow> tnf < length h \<Longrightarrow> grows_at h tnf h'"
  using p_setDeep_prefix by (rule keys_loop_grows)

subsection \<open>Well-formedness is preserved\<close>

lemma wf_heap_iff:
  "wf_heap h \<longleftrightarrow>
     (\<forall>ob \<in> set h. distinct (map fst (props ob)) \<and> (\<forall>(k, v) \<in> set (props ob). validRef h v))"
  by (simp add: wf_heap_def list_all_iff)

lemma validRef_length: "length h = length h' \<Longrightarrow> validRef h' v = validRef h v"
  by (simp add: validRef_def split: val.splits)

lemma validRef_mono: "validRef h v \<Longrightarrow> length h \<le> length h' \<Longrightarrow> validRef h' v"
  by (cases v) (simp_all add: validRef_def)

lemma wf_heap_snoc:
  assumes "wf_heap h" and "distinct (map fst (props ob))"
    and "\<forall>(k, v) \<in> set (props ob). validRef (h @ [ob]) v"
  shows "wf_heap (h @ [ob])"
proof -
  have "validRef (h @ [ob]) v" if "validRef h v" for v
    using that by (rule validRef_mono) simp
  then show ?thesis using assms unfolding wf_heap_iff by fastforce
qed

lemma wf_heap_update:
  assumes "wf_heap h" and "distinct (map fst (props ob))"
    and "\<forall>(k, v) \<in> set (props ob). validRef h v"
  shows "wf_heap (h[a := ob])"
proof -
  have len: "validRef (h[a := ob]) v = validRef h v" for v
    by (rule validRef_length) simp
  have "x \<in> set h \<or> x = ob" if "x \<in> set (h[a := ob])" for x
    using that set_update_subset_insert [of h a ob] by auto
  then show ?thesis using assms unfolding wf_heap_iff len by blast
qed

lemma set_update_subset: "set (AList.update k v al) \<subseteq> insert (k, v) (set al)"
  by (induction al) auto

lemma wf_heap_setField:
  assumes "wf_heap h" and "validRef h v"
  shows "wf_heap (setField h a k v)"
proof (cases "a < length h")
  case False
  then have "setField h a k v = h" by (simp add: setField_def list_update_beyond)
  then show ?thesis using assms(1) by simp
next
  case True
  then have mem: "h ! a \<in> set h" by simp
  let ?ob = "(h ! a)\<lparr>props := AList.update k v (props (h ! a))\<rparr>"
  have "distinct (map fst (props ?ob))"
    using assms(1) mem by (auto simp: wf_heap_iff intro: AList.distinct_update)
  moreover have "\<forall>(k', v') \<in> set (props ?ob). validRef h v'"
    using assms mem set_update_subset [of k v "props (h ! a)"] unfolding wf_heap_iff by fastforce
  ultimately show ?thesis unfolding setField_def using assms(1) by (intro wf_heap_update)
qed

lemma wf_heap_ownProps: "wf_heap h \<Longrightarrow> (k, v) \<in> set (ownProps h s) \<Longrightarrow> validRef h v"
proof -
  assume wf: "wf_heap h" and mem: "(k, v) \<in> set (ownProps h s)"
  then obtain ob where "deref h s = Some ob" and "(k, v) \<in> set (props ob)"
    by (cases "deref h s") (auto simp: ownProps_def)
  moreover from this have "ob \<in> set h"
    by (cases s) (auto simp: deref_def split: if_splits)
  ultimately show ?thesis using wf unfolding wf_heap_iff by blast
qed

lemma wf_heap_assignAll:
  "wf_heap h \<Longrightarrow> \<forall>(k, v) \<in> set ps. validRef h v \<Longrightarrow> wf_heap (assignAll h a ps)"
proof (induction ps arbitrary: h)
  case Nil
  then show ?case by (simp add: assignAll_def)
next
  case (Cons p ps)
  obtain k v where p: "p = (k, v)" by (cases p)
  have step: "assignAll h a ((k, v) # ps) = assignAll (setField h a k v) a ps"
    by (simp add: assignAll_def)
  have wf1: "wf_heap (setField h a k v)"
    using Cons.prems p by (intro wf_heap_setField) auto
  have "\<forall>(k', v') \<in> set ps. validRef (setField h a k v) v'"
    using Cons.prems(2) validRef_length [of "setField h a k v" h] by auto
  with wf1 show ?case unfolding p step by (rule Cons.IH)
qed

lemma wf_heap_mergeAllPropertiesInto:
  "wf_heap h \<Longrightarrow> wf_heap (mergeAllPropertiesInto h a srcs)"
proof (induction srcs arbitrary: h)
  case Nil
  then show ?case by (simp add: mergeAllPropertiesInto_def)
next
  case (Cons s srcs)
  have "wf_heap (assignAll h a (ownProps h s))"
    using Cons.prems by (intro wf_heap_assignAll) (auto dest: wf_heap_ownProps)
  then have "wf_heap (mergeAllPropertiesInto (assignAll h a (ownProps h s)) a srcs)"
    by (rule Cons.IH)
  then show ?case by (simp add: mergeAllPropertiesInto_def)
qed

lemma wf_heap_deepFreezeRootNode: "wf_heap h \<Longrightarrow> wf_heap (deepFreezeRootNode h a)"
proof (cases "a < length h")
  case False
  assume "wf_heap h"
  then show ?thesis using False by (simp add: deepFreezeRootNode_def list_update_beyond)
next
  case True
  assume wf: "wf_heap h"
  have "h ! a \<in> set h" using True by simp
  then show ?thesis
    unfolding deepFreezeRootNode_def using wf
    by (intro wf_heap_update) (auto simp: wf_heap_iff)
qed

lemma wf_heap_emptyObject: "wf_heap h \<Longrightarrow> wf_heap (h @ [emptyObject])"
  by (rule wf_heap_snoc) (simp_all add: emptyObject_def)

lemma ImmutableObject_new_wf:
  assumes "wf_heap h" and "ImmutableObject_new dev h srcs = (r, h')"
  shows "wf_heap h' \<and> validRef h' r"
proof -
  let ?h1 = "h @ [\<lparr>kind = ImmutableValue, props = [], frozen = False\<rparr>]"
  let ?h2 = "mergeAllPropertiesInto ?h1 (length h) srcs"
  have "wf_heap ?h1" using assms(1) by (rule wf_heap_snoc) simp_all
  then have wf2: "wf_heap ?h2" by (rule wf_heap_mergeAllPropertiesInto)
  obtain x where "?h2 = ?h1[length h := x]" using mergeAllPropertiesInto_shape by blast
  then have len: "length ?h2 = Suc (length h)" by simp
  have "wf_heap h'" and "length h' = Suc (length h)" and "r = Ref (length h)"
    using assms(2) wf2 len
    by (auto simp: ImmutableObject_new_def Let_def deepFreezeRootNode_def
        intro: wf_heap_deepFreezeRootNode [unfolded deepFreezeRootNode_def] split: if_splits)
  then show ?thesis by (simp add: validRef_def)
qed

lemma newKeys_loop_wf: "wf_heap h \<Longrightarrow> wf_heap (newKeys_loop h tnf ob put ks)"
proof (induction ks arbitrary: h)
  case Nil
  then show ?case by simp
next
  case (Cons k ks)
  have "wf_heap (setField h tnf k (getProp h put k))"
    using Cons.prems by (intro wf_heap_setField wf_heap_validRef)
  then show ?case using Cons by simp
qed

lemma deleteProperty_loop_wf: "wf_heap h \<Longrightarrow> wf_heap (deleteProperty_loop h copy ob d keys)"
proof (induction keys arbitrary: h)
  case Nil
  then show ?case by simp
next
  case (Cons k ks)
  have "wf_heap (setField h copy k (getProp h ob k))"
    using Cons.prems by (intro wf_heap_setField wf_heap_validRef)
  then show ?case using Cons by simp
qed

lemma keys_loop_wf:
  assumes IH: "\<And>h ob put res h'. wf_heap h \<Longrightarrow> p_setDeep n dev isT h ob put = Some (res, h')
                 \<Longrightarrow> wf_heap h' \<and> (\<forall>r. res = Inr r \<longrightarrow> validRef h' r)"
  shows "wf_heap h \<Longrightarrow> keys_loop n dev isT h tnf ob put keys = Some (res, h') \<Longrightarrow> wf_heap h'"
proof (induction keys arbitrary: h)
  case Nil
  then show ?case by simp
next
  case (Cons key keys)
  let ?vo = "getProp h ob key" and ?vp = "getProp h put key"
  consider (absent) "\<not> hasOwnProperty h put key"
    | (leaf) "hasOwnProperty h put key" "isT ?vo (deref h ?vo) \<or> isT ?vp (deref h ?vp)"
    | (rec) "hasOwnProperty h put key" "\<not> isT ?vo (deref h ?vo)" "\<not> isT ?vp (deref h ?vp)"
    by blast
  then show ?case
  proof cases
    case absent
    have "wf_heap (setField h tnf key ?vo)"
      using Cons.prems(1) by (intro wf_heap_setField wf_heap_validRef)
    then show ?thesis using Cons.prems(2) absent by (intro Cons.IH) simp_all
  next
    case leaf
    have "wf_heap (setField h tnf key ?vp)"
      using Cons.prems(1) by (intro wf_heap_setField wf_heap_validRef)
    then show ?thesis using Cons.prems(2) leaf by (intro Cons.IH) auto
  next
    case rec
    from Cons.prems(2) rec obtain res1 hi where
      call: "p_setDeep n dev isT h ?vo ?vp = Some (res1, hi)"
      by (auto split: option.splits)
    have wfi: "wf_heap hi" and vr: "\<forall>r. res1 = Inr r \<longrightarrow> validRef hi r"
      using IH [OF Cons.prems(1) call] by simp_all
    show ?thesis
    proof (cases res1)
      case (Inl e)
      then show ?thesis using Cons.prems(2) rec call wfi by simp
    next
      case (Inr v)
      have "wf_heap (setField hi tnf key v)"
        using wfi vr Inr by (intro wf_heap_setField) simp_all
      then show ?thesis using Cons.prems(2) rec call Inr by (intro Cons.IH) simp_all
    qed
  qed
qed

lemma p_setDeep_wf:
  "wf_heap h \<Longrightarrow> p_setDeep n dev isT h ob put = Some (res, h')
   \<Longrightarrow> wf_heap h' \<and> (\<forall>r. res = Inr r \<longrightarrow> validRef h' r)"
proof (induction n arbitrary: h ob put res h')
  case 0
  then show ?case by simp
next
  case (Suc n)
  show ?case
  proof (cases "checkMergeObjectArgs h ob put")
    case False
    then show ?thesis using Suc.prems by auto
  next
    case True
    let ?t = "length h" and ?h1 = "h @ [emptyObject]"
    from Suc.prems(2) True obtain res2 h2 where
      loop: "keys_loop n dev isT ?h1 ?t ob put (keysOf ?h1 ob) = Some (res2, h2)"
      by (auto simp: Let_def split: option.splits)
    have wf1: "wf_heap ?h1" using Suc.prems(1) by (rule wf_heap_emptyObject)
    have wf2: "wf_heap h2"
    proof (rule keys_loop_wf [where n = n and dev = dev and isT = isT, OF _ wf1 loop])
      show "wf_heap h' \<and> (\<forall>r. res = Inr r \<longrightarrow> validRef h' r)"
        if "wf_heap h" "p_setDeep n dev isT h ob put = Some (res, h')" for h ob put res h'
        using that by (rule Suc.IH)
    qed
    show ?thesis
    proof (cases res2)
      case (Inl e)
      then show ?thesis using Suc.prems(2) True loop wf2 by (auto simp: Let_def)
    next
      case (Inr u)
      let ?h3 = "newKeys_loop h2 ?t ob put (keysOf h2 put)"
      have wf3: "wf_heap ?h3" using wf2 by (rule newKeys_loop_wf)
      have g2: "grows_at ?h1 ?t h2" using loop by (rule keys_loop_frame) simp
      have "length ?h1 \<le> length h2" using g2 by (rule grows_at_length)
      moreover have "length h2 \<le> length ?h3"
        using newKeys_loop_grows by (rule grows_at_length)
      ultimately have vt: "validRef ?h3 (Ref ?t)" by (simp add: validRef_def)
      show ?thesis
        using Suc.prems(2) True loop Inr wf3 vt
        by (auto simp: Let_def split: if_splits prod.splits dest: ImmutableObject_new_wf)
    qed
  qed
qed

subsection \<open>The entries of the accumulator\<close>

lemma keys_loop_entries:
  assumes wf: "wf_heap h0" and vo: "validRef h0 ob" and vp: "validRef h0 put"
    and t0: "length h0 \<le> tnf"
  shows "keys_loop n dev isT h tnf ob put keys = Some (Inr u, h') \<Longrightarrow> prefix h0 h
         \<Longrightarrow> tnf < length h \<Longrightarrow> wf_heap h
         \<Longrightarrow> \<exists>ents. props (h' ! tnf) = writeAll (props (h ! tnf)) ents \<and> map fst ents = keys
                \<and> (\<forall>(k, v) \<in> set ents. merged_value n dev isT h0 h' tnf ob put k v)"
proof (induction keys arbitrary: h)
  case Nil
  then show ?case by simp
next
  case (Cons key keys)
  let ?vo = "getProp h0 ob key" and ?vp = "getProp h0 put key"
  have pre: "prefix h0 h" and lt: "tnf < length h" and wfh: "wf_heap h"
    using Cons.prems by simp_all
  have dro: "deref h ob = deref h0 ob" and drp: "deref h put = deref h0 put"
    using pre vo vp by (simp_all add: deref_prefix)
  have reads: "getProp h ob key = ?vo" "getProp h put key = ?vp"
    "hasOwnProperty h put key = hasOwnProperty h0 put key"
    using reads_cong [OF dro] reads_cong [OF drp] by simp_all
  have vals: "deref h ?vo = deref h0 ?vo" "deref h ?vp = deref h0 ?vp"
    using pre wf by (simp_all add: deref_prefix wf_heap_validRef)
  have vh: "validRef h ?vo" "validRef h ?vp"
    using wfh wf_heap_validRef [of h ob key] wf_heap_validRef [of h put key]
    by (simp_all add: reads)
  \<comment> \<open>whatever is written under \<open>key\<close>, the rest of the loop behaves the same\<close>
  have rest: "\<exists>ents. props (h' ! tnf) = writeAll (props (h ! tnf)) ents \<and> map fst ents = key # keys
        \<and> (\<forall>(k, v) \<in> set ents. merged_value n dev isT h0 h' tnf ob put k v)"
    if loop: "keys_loop n dev isT (setField hi tnf key v) tnf ob put keys = Some (Inr u, h')"
      and hi: "prefix h hi" and mv: "merged_value n dev isT h0 h' tnf ob put key v"
      and wfi: "wf_heap hi" and vi: "validRef hi v"
    for hi v
  proof -
    let ?h1 = "setField hi tnf key v"
    have lti: "tnf < length hi" using lt hi prefix_length_le by fastforce
    have p1: "prefix h0 ?h1" using pre hi t0 by (intro prefix_setField) (rule prefix_order.trans)
    have wf1: "wf_heap ?h1" using wfi vi by (rule wf_heap_setField)
    obtain ents where e1: "props (h' ! tnf) = writeAll (props (?h1 ! tnf)) ents"
      and e2: "map fst ents = keys"
      and e3: "\<forall>(k, v) \<in> set ents. merged_value n dev isT h0 h' tnf ob put k v"
      using Cons.IH [OF loop p1 _ wf1] lti by auto
    have same: "hi ! tnf = h ! tnf"
      using hi lt by (auto simp: prefix_def nth_append)
    have a: "props (h' ! tnf) = writeAll (props (h ! tnf)) ((key, v) # ents)"
      using e1 lti by (simp add: setField_nth_same same)
    have b: "map fst ((key, v) # ents) = key # keys" using e2 by simp
    have c: "\<forall>(k, v) \<in> set ((key, v) # ents). merged_value n dev isT h0 h' tnf ob put k v"
      using e3 mv by simp
    show ?thesis by (rule exI [of _ "(key, v) # ents"]) (intro conjI a b c)
  qed
  consider (absent) "\<not> hasOwnProperty h0 put key"
    | (leaf) "hasOwnProperty h0 put key" "isT ?vo (deref h0 ?vo) \<or> isT ?vp (deref h0 ?vp)"
    | (rec) "hasOwnProperty h0 put key" "\<not> isT ?vo (deref h0 ?vo)" "\<not> isT ?vp (deref h0 ?vp)"
    by blast
  then show ?case
  proof cases
    case absent
    have l: "keys_loop n dev isT (setField h tnf key ?vo) tnf ob put keys = Some (Inr u, h')"
      using Cons.prems(1) absent by (simp add: reads)
    have m: "merged_value n dev isT h0 h' tnf ob put key ?vo"
      using absent by (simp add: merged_value_def)
    show ?thesis by (rule rest [OF l prefix_order.refl m wfh vh(1)])
  next
    case leaf
    have l: "keys_loop n dev isT (setField h tnf key ?vp) tnf ob put keys = Some (Inr u, h')"
      using Cons.prems(1) leaf by (auto simp: reads vals)
    have m: "merged_value n dev isT h0 h' tnf ob put key ?vp"
      using leaf by (auto simp: merged_value_def)
    show ?thesis by (rule rest [OF l prefix_order.refl m wfh vh(2)])
  next
    case rec
    from Cons.prems(1) rec obtain v hi where
      call: "p_setDeep n dev isT h ?vo ?vp = Some (Inr v, hi)"
      and loop: "keys_loop n dev isT (setField hi tnf key v) tnf ob put keys = Some (Inr u, h')"
      by (auto simp: reads vals split: option.splits sum.splits)
    have hi: "prefix h hi" using call by (rule p_setDeep_prefix)
    have lti: "tnf < length hi" using lt hi prefix_length_le by fastforce
    have g: "grows_at (setField hi tnf key v) tnf h'"
      using loop lti by (intro keys_loop_frame) simp_all
    then have "\<forall>a < length hi. a \<noteq> tnf \<longrightarrow> h' ! a = hi ! a"
      using grows_at_nth_other [of "setField hi tnf key v" tnf h'] by simp
    moreover have "length hi \<le> length h'"
      using grows_at_length [OF g] by simp
    ultimately have mv: "merged_value n dev isT h0 h' tnf ob put key v"
      using rec pre wfh call by (auto simp: merged_value_def)
    have "wf_heap hi" "validRef hi v"
      using p_setDeep_wf [OF wfh call] by simp_all
    with loop hi mv show ?thesis by (rule rest)
  qed
qed


lemma merged_value_mono:
  assumes "merged_value n dev isT h h2 tnf ob put k v" and "length h2 \<le> length h3"
    and "\<forall>a < length h2. a \<noteq> tnf \<longrightarrow> h3 ! a = h2 ! a"
  shows "merged_value n dev isT h h3 tnf ob put k v"
proof -
  have "\<exists>hi hi'. prefix h hi \<and> wf_heap hi \<and> p_setDeep n dev isT hi vo vp = Some (Inr v, hi')
          \<and> length hi' \<le> length h3 \<and> (\<forall>a < length hi'. a \<noteq> tnf \<longrightarrow> h3 ! a = hi' ! a)"
    if "\<exists>hi hi'. prefix h hi \<and> wf_heap hi \<and> p_setDeep n dev isT hi vo vp = Some (Inr v, hi')
          \<and> length hi' \<le> length h2 \<and> (\<forall>a < length hi'. a \<noteq> tnf \<longrightarrow> h2 ! a = hi' ! a)"
    for vo vp
  proof -
    from that obtain hi hi' where 1: "prefix h hi \<and> wf_heap hi"
      and 2: "p_setDeep n dev isT hi vo vp = Some (Inr v, hi')"
      and 3: "length hi' \<le> length h2" and 4: "\<forall>a < length hi'. a \<noteq> tnf \<longrightarrow> h2 ! a = hi' ! a"
      by blast
    have "length hi' \<le> length h3" using 3 assms(2) by simp
    moreover have "\<forall>a < length hi'. a \<noteq> tnf \<longrightarrow> h3 ! a = hi' ! a"
      using 3 4 assms(3) by auto
    ultimately show ?thesis using 1 2 by blast
  qed
  then show ?thesis
    using assms(1) unfolding merged_value_def Let_def by (auto split: if_splits)
qed

lemma newKeys_loop_eq:
  assumes "tnf < length h" and "ob \<noteq> Ref tnf" and "put \<noteq> Ref tnf"
  shows "newKeys_loop h tnf ob put ks =
         h[tnf := (h ! tnf)\<lparr>props := writeAll (props (h ! tnf))
             (map (\<lambda>k. (k, getProp h put k)) (filter (\<lambda>k. \<not> hasOwnProperty h ob k) ks))\<rparr>]"
  using assms(1)
proof (induction ks arbitrary: h)
  case Nil
  then show ?case by simp
next
  case (Cons k ks)
  show ?case
  proof (cases "hasOwnProperty h ob k")
    case True
    then show ?thesis using Cons.IH [OF Cons.prems] by simp
  next
    case False
    let ?h1 = "setField h tnf k (getProp h put k)"
    have dro: "deref ?h1 ob = deref h ob" and drp: "deref ?h1 put = deref h put"
      using assms(2,3) by (simp_all add: deref_setField_other)
    have rd: "getProp ?h1 put k' = getProp h put k'" "hasOwnProperty ?h1 ob k' = hasOwnProperty h ob k'" for k'
      using reads_cong [OF dro] reads_cong [OF drp] by simp_all
    have len: "tnf < length ?h1" using Cons.prems by simp
    show ?thesis
      using False Cons.IH [OF len] Cons.prems
      by (simp add: rd setField_nth_same) (simp add: setField_def)
  qed
qed

lemma writeAll_fresh_append:
  "distinct (map fst qs) \<Longrightarrow> fst ` set qs \<inter> fst ` set acc = {} \<Longrightarrow> writeAll acc qs = acc @ qs"
proof (induction qs arbitrary: acc)
  case Nil
  then show ?case by simp
next
  case (Cons q qs)
  obtain k v where q: "q = (k, v)" by (cases q)
  have fresh: "k \<notin> fst ` set acc" using Cons.prems(2) q by auto
  have "fst ` set qs \<inter> fst ` set (acc @ [(k, v)]) = {}"
    using Cons.prems q by auto
  then have "writeAll (acc @ [(k, v)]) qs = (acc @ [(k, v)]) @ qs"
    using Cons.prems(1) by (intro Cons.IH) simp
  then show ?case using fresh q by (simp add: update_fresh)
qed

subsection \<open>What a call returns\<close>

lemma isMapping_validRef: "isMapping (deref h v) \<Longrightarrow> validRef h v"
  by (cases v) (auto simp: isMapping_def deref_def validRef_def split: if_splits)

lemma p_setDeep_result:
  assumes wf: "wf_heap h" and res: "p_setDeep n dev isT h ob put = Some (Inr r, h')"
  shows "\<exists>m a ents. n = Suc m \<and> r = Ref a \<and> length h \<le> a \<and> a < length h'
           \<and> checkMergeObjectArgs h ob put
           \<and> kind (h' ! a) = (if instanceofImmutableValue h ob \<or> instanceofImmutableValue h put
                               then ImmutableValue else PlainObject)
           \<and> frozen (h' ! a) = (dev \<and> (instanceofImmutableValue h ob \<or> instanceofImmutableValue h put))
           \<and> ownProps h' r = enumerationOrder (ents @ put_only h ob put)
           \<and> distinct (map fst (ents @ put_only h ob put))
           \<and> map fst ents = keysOf h ob
           \<and> (\<forall>(k, v) \<in> set ents. merged_value m dev isT h h' (length h) ob put k v)"
proof -
  obtain m where n: "n = Suc m" using res by (cases n) simp_all
  have chk: "checkMergeObjectArgs h ob put"
    using res n by (auto split: if_splits)
  then have vo: "validRef h ob" and vp: "validRef h put"
    by (simp_all add: checkMergeObjectArgs_def isMapping_validRef)
  let ?t = "length h" and ?h1 = "h @ [emptyObject]"
  have neo: "ob \<noteq> Ref ?t" and nep: "put \<noteq> Ref ?t"
    using vo vp by (auto simp: validRef_def)
  obtain u h2 where loop: "keys_loop m dev isT ?h1 ?t ob put (keysOf ?h1 ob) = Some (Inr u, h2)"
    using res n chk by (auto simp: Let_def split: option.splits sum.splits)
  let ?h3 = "newKeys_loop h2 ?t ob put (keysOf h2 put)"
  have fin: "(if instanceofImmutableValue ?h3 ob \<or> instanceofImmutableValue ?h3 put
              then (case ImmutableObject_new dev ?h3 [Ref ?t] of (r, h4) \<Rightarrow> Some (Inr r, h4))
              else Some (Inr (Ref ?t), ?h3)) = (Some (Inr r, h') :: result option)"
    using res n chk loop by (auto simp: Let_def split: if_splits)
  have lt1: "?t < length ?h1" by simp
  have g2: "grows_at ?h1 ?t h2" using loop lt1 by (rule keys_loop_frame)
  have p2: "prefix h h2" using g2 by (rule grows_at_fresh)
  have len2: "?t < length h2" using grows_at_length [OF g2] by simp
  obtain ps where h2t: "h2 ! ?t = emptyObject\<lparr>props := ps\<rparr>"
    using grows_at_nth_same [OF g2 lt1] by auto
  \<comment> \<open>the base and the patch read the same in every store of the call\<close>
  have dr1: "deref ?h1 ob = deref h ob" "deref ?h1 put = deref h put"
    using vo vp by (simp_all add: deref_prefix)
  have dr2: "deref h2 ob = deref h ob" "deref h2 put = deref h put"
    using vo vp p2 by (simp_all add: deref_prefix)
  have k1: "keysOf ?h1 ob = keysOf h ob" using reads_cong [OF dr1(1)] by simp
  have rd2: "keysOf h2 put = keysOf h put" "getProp h2 put k = getProp h put k"
    "hasOwnProperty h2 ob k = (k \<in> set (keysOf h ob))" for k
    using reads_cong [OF dr2(1)] reads_cong [OF dr2(2)] by (simp_all add: hasOwnProperty_def)
  \<comment> \<open>the first loop\<close>
  have p1: "prefix h ?h1" by simp
  obtain ents where e1: "props (h2 ! ?t) = writeAll (props (?h1 ! ?t)) ents"
    and e2: "map fst ents = keysOf h ob"
    and e3: "\<forall>(k, v) \<in> set ents. merged_value m dev isT h h2 ?t ob put k v"
    using keys_loop_entries [OF wf vo vp order_refl loop p1 lt1 wf_heap_emptyObject [OF wf]]
    unfolding k1 by blast
  have dis: "distinct (map fst ents)" unfolding e2 using wf by (rule wf_heap_distinct)
  have ents: "props (h2 ! ?t) = ents"
    using e1 dis by (simp add: emptyObject_def writeAll_empty)
  \<comment> \<open>the second loop\<close>
  have news: "map (\<lambda>k. (k, getProp h2 put k)) (filter (\<lambda>k. \<not> hasOwnProperty h2 ob k) (keysOf h2 put))
              = put_only h ob put"
    unfolding rd2 put_only_def ..
  have dnews: "distinct (map fst (put_only h ob put))"
    using wf_heap_distinct [OF wf, of put] by (simp add: put_only_def comp_def distinct_map_filter)
  have fresh: "fst ` set (put_only h ob put) \<inter> fst ` set ents = {}"
  proof -
    have "fst ` set ents = set (keysOf h ob)" using e2 by (metis set_map)
    then show ?thesis by (auto simp: put_only_def)
  qed
  have h3: "?h3 = h2[?t := (h2 ! ?t)\<lparr>props := ents @ put_only h ob put\<rparr>]"
    using newKeys_loop_eq [OF len2 neo nep, of "keysOf h2 put"]
    unfolding news ents by (simp add: writeAll_fresh_append [OF dnews fresh])
  have p3: "prefix h ?h3" unfolding h3 using p2 by (rule prefix_list_update) simp
  have len3: "?t < length ?h3" "length ?h3 = length h2" using len2 by (simp_all add: h3)
  have h3t: "props (?h3 ! ?t) = ents @ put_only h ob put" "kind (?h3 ! ?t) = PlainObject"
    "frozen (?h3 ! ?t) = False"
    using len2 by (simp_all add: h3 h2t emptyObject_def)
  have dall: "distinct (map fst (ents @ put_only h ob put))"
    using dis dnews fresh by auto
  have e3': "\<forall>(k, v) \<in> set ents. merged_value m dev isT h h4 ?t ob put k v"
    if "length h2 \<le> length h4" "\<forall>a < length h2. a \<noteq> ?t \<longrightarrow> h4 ! a = h2 ! a" for h4
    using e3 that by (auto intro: merged_value_mono)
  have dr3: "deref ?h3 ob = deref h ob" "deref ?h3 put = deref h put"
    using vo vp p3 by (simp_all add: deref_prefix)
  have iv: "instanceofImmutableValue ?h3 ob = instanceofImmutableValue h ob"
    "instanceofImmutableValue ?h3 put = instanceofImmutableValue h put"
    using reads_cong [OF dr3(1)] reads_cong [OF dr3(2)] by simp_all
  show ?thesis
  proof (cases "instanceofImmutableValue h ob \<or> instanceofImmutableValue h put")
    case False
    then have r: "r = Ref ?t" and h': "h' = ?h3" using fin unfolding iv by simp_all
    have mv: "\<forall>(k, v) \<in> set ents. merged_value m dev isT h h' ?t ob put k v"
      unfolding h' by (rule e3') (simp_all add: h3)
    have own: "ownProps h' r = enumerationOrder (ents @ put_only h ob put)"
      unfolding r h' using len3 h3t by (simp add: ownProps_Ref)
    have a1: "length h \<le> ?t" "?t < length h'" using len3 by (simp_all add: h')
    have a2: "kind (h' ! ?t) = PlainObject" "frozen (h' ! ?t) = False"
      unfolding h' using h3t by simp_all
    show ?thesis
      using n r chk False mv e2 a1 a2 own dall
      by (intro exI [of _ m] exI [of _ ?t] exI [of _ ents]) simp
  next
    case True
    let ?new = "\<lparr>kind = ImmutableValue, props = enumerationOrder (ents @ put_only h ob put), frozen = dev\<rparr>"
    have "ownProps ?h3 (Ref ?t) = enumerationOrder (ents @ put_only h ob put)"
      using len3 h3t by (simp add: ownProps_Ref)
    moreover have "\<forall>s \<in> set [Ref ?t]. validRef ?h3 s" using len3 by (simp add: validRef_def)
    moreover have "distinct (map fst (enumerationOrder (ents @ put_only h ob put)))"
      using dall by (simp only: distinct_enumerationOrder)
    ultimately have "ImmutableObject_new dev ?h3 [Ref ?t] = (Ref (length ?h3), ?h3 @ [?new])"
      using ImmutableObject_new_eq [of "[Ref ?t]" ?h3 dev] by (simp add: writeAll_empty)
    then have r: "r = Ref (length ?h3)" and h': "h' = ?h3 @ [?new]"
      using fin True unfolding iv by auto
    have mv: "\<forall>(k, v) \<in> set ents. merged_value m dev isT h h' ?t ob put k v"
      unfolding h' by (rule e3') (auto simp: h3 nth_append)
    have a1: "length h \<le> length ?h3" "length ?h3 < length h'" using len3 by (simp_all add: h')
    have a2: "h' ! length ?h3 = ?new" by (simp add: h')
    have own: "ownProps h' r = enumerationOrder (ents @ put_only h ob put)"
      unfolding r h' by (simp add: ownProps_new)
    show ?thesis
      using n r chk True mv e2 a1 own dall unfolding a2 [symmetric]
      by (intro exI [of _ m] exI [of _ "length ?h3"] exI [of _ ents]) (simp add: a2)
  qed
qed

lemma put_only_keys:
  "map fst (put_only h ob put) = filter (\<lambda>k. k \<notin> set (keysOf h ob)) (keysOf h put)"
  by (simp add: put_only_def comp_def)

lemma put_only_map_of:
  "k \<in> set (keysOf h put) \<Longrightarrow> k \<notin> set (keysOf h ob)
   \<Longrightarrow> map_of (put_only h ob put) k = Some (getProp h put k)"
proof -
  assume k: "k \<in> set (keysOf h put)" "k \<notin> set (keysOf h ob)"
  let ?ks = "filter (\<lambda>k. k \<notin> set (keysOf h ob)) (keysOf h put)"
  have "k \<in> set ?ks" using k by simp
  then have "map_of (map (\<lambda>k. (k, getProp h put k)) ?ks) k = Some (getProp h put k)"
    by (induction ?ks) (auto simp: map_of_map_restrict)
  then show ?thesis by (simp add: put_only_def)
qed

lemma p_setDeep_keys:
  assumes "wf_heap h" and "p_setDeep n dev isT h ob put = Some (Inr r, h')"
  shows "keysOf h' r
         = enumerationKeys (keysOf h ob @ filter (\<lambda>k. k \<notin> set (keysOf h ob)) (keysOf h put))"
proof -
  from p_setDeep_result [OF assms] obtain ents where
    own: "ownProps h' r = enumerationOrder (ents @ put_only h ob put)"
    and ks: "map fst ents = keysOf h ob"
    by blast
  show ?thesis using keysOf_entries [OF own] by (simp add: ks put_only_keys)
qed

lemma p_setDeep_put_only:
  assumes "wf_heap h" and "p_setDeep n dev isT h ob put = Some (Inr r, h')"
    and "k \<in> set (keysOf h put)" and "k \<notin> set (keysOf h ob)"
  shows "getProp h' r k = getProp h put k"
proof -
  from p_setDeep_result [OF assms(1,2)] obtain ents where
    own: "ownProps h' r = enumerationOrder (ents @ put_only h ob put)"
    and dall: "distinct (map fst (ents @ put_only h ob put))"
    and ks: "map fst ents = keysOf h ob"
    by blast
  have "k \<notin> fst ` set ents" using assms(4) ks by (metis set_map)
  then have "map_of ents k = None" by (simp add: map_of_eq_None_iff)
  then have "map_of (ents @ put_only h ob put) k = Some (getProp h put k)"
    using put_only_map_of [OF assms(3,4)] by (simp add: map_add_def)
  then show ?thesis using getProp_entries [OF own dall, of k] by simp
qed

lemma p_setDeep_base_key:
  assumes "wf_heap h" and "p_setDeep n dev isT h ob put = Some (Inr r, h')"
    and "k \<in> set (keysOf h ob)"
  shows "\<exists>m. n = Suc m \<and> merged_value m dev isT h h' (length h) ob put k (getProp h' r k)"
proof -
  from p_setDeep_result [OF assms(1,2)] obtain m ents where
    n: "n = Suc m"
    and own: "ownProps h' r = enumerationOrder (ents @ put_only h ob put)"
    and dall: "distinct (map fst (ents @ put_only h ob put))"
    and ks: "map fst ents = keysOf h ob"
    and mv: "\<forall>(k, v) \<in> set ents. merged_value m dev isT h h' (length h) ob put k v"
    by blast
  have "k \<in> fst ` set ents" using assms(3) ks by (metis set_map)
  then obtain v where v: "map_of ents k = Some v"
    by (cases "map_of ents k") (simp_all add: map_of_eq_None_iff)
  then have "(k, v) \<in> set ents" by (rule map_of_SomeD)
  then have "merged_value m dev isT h h' (length h) ob put k v" using mv by auto
  moreover have "getProp h' r k = v"
    using getProp_entries [OF own dall, of k] v by (simp add: map_add_def)
  ultimately show ?thesis using n by simp
qed

lemma p_setDeep_wrapping:
  assumes "wf_heap h" and "p_setDeep n dev isT h ob put = Some (Inr r, h')"
  shows "\<exists>a. r = Ref a \<and> length h \<le> a \<and> a < length h'
           \<and> kind (h' ! a) = (if instanceofImmutableValue h ob \<or> instanceofImmutableValue h put
                               then ImmutableValue else PlainObject)
           \<and> frozen (h' ! a) = (dev \<and> (instanceofImmutableValue h ob \<or> instanceofImmutableValue h put))"
  using p_setDeep_result [OF assms] by blast

subsection \<open>Errors\<close>

lemma keys_loop_error:
  assumes IH: "\<And>h ob put e h'. p_setDeep n dev isT h ob put = Some (Inl e, h') \<Longrightarrow> e = MalformedMergePair"
  shows "keys_loop n dev isT h tnf ob put keys = Some (Inl e, h') \<Longrightarrow> e = MalformedMergePair"
proof (induction keys arbitrary: h)
  case Nil
  then show ?case by simp
next
  case (Cons key keys)
  let ?vo = "getProp h ob key" and ?vp = "getProp h put key"
  consider (absent) "\<not> hasOwnProperty h put key"
    | (leaf) "hasOwnProperty h put key" "isT ?vo (deref h ?vo) \<or> isT ?vp (deref h ?vp)"
    | (rec) "hasOwnProperty h put key" "\<not> isT ?vo (deref h ?vo)" "\<not> isT ?vp (deref h ?vp)"
    by blast
  then show ?case
  proof cases
    case absent
    then show ?thesis using Cons by simp
  next
    case leaf
    then show ?thesis using Cons by auto
  next
    case rec
    from Cons.prems rec obtain res hi where
      call: "p_setDeep n dev isT h ?vo ?vp = Some (res, hi)"
      by (auto split: option.splits)
    show ?thesis
    proof (cases res)
      case (Inl e')
      then have "e = e'" using Cons.prems rec call by simp
      then show ?thesis using IH call Inl by simp
    next
      case (Inr v)
      then have "keys_loop n dev isT (setField hi tnf key v) tnf ob put keys = Some (Inl e, h')"
        using Cons.prems rec call by simp
      then show ?thesis by (rule Cons.IH)
    qed
  qed
qed

lemma p_setDeep_error:
  "p_setDeep n dev isT h ob put = Some (Inl e, h') \<Longrightarrow> e = MalformedMergePair"
proof (induction n arbitrary: h ob put e h')
  case 0
  then show ?case by simp
next
  case (Suc n)
  show ?case
  proof (cases "checkMergeObjectArgs h ob put")
    case False
    then show ?thesis using Suc.prems by simp
  next
    case True
    let ?t = "length h" and ?h1 = "h @ [emptyObject]"
    from Suc.prems True obtain res h2 where
      loop: "keys_loop n dev isT ?h1 ?t ob put (keysOf ?h1 ob) = Some (res, h2)"
      by (auto simp: Let_def split: option.splits)
    have "res = Inl e"
      using Suc.prems True loop
      by (cases res) (auto simp: Let_def split: if_splits prod.splits)
    then have loop': "keys_loop n dev isT ?h1 ?t ob put (keysOf ?h1 ob) = Some (Inl e, h2)"
      using loop by simp
    show ?thesis
    proof (rule keys_loop_error [where n = n and dev = dev and isT = isT])
      show "e' = MalformedMergePair" if "p_setDeep n dev isT h ob put = Some (Inl e', h')"
        for h ob put e' h'
        using that by (rule Suc.IH)
      show "keys_loop n dev isT ?h1 ?t ob put (keysOf ?h1 ob) = Some (Inl e, h2)"
        by (rule loop')
    qed
  qed
qed

lemma checkMergeObjectArgs_prefix:
  "prefix h0 h \<Longrightarrow> validRef h0 ob \<Longrightarrow> validRef h0 put
   \<Longrightarrow> checkMergeObjectArgs h ob put = checkMergeObjectArgs h0 ob put"
  by (simp add: checkMergeObjectArgs_def deref_prefix)

lemma keys_loop_malformed:
  assumes wf: "wf_heap h0" and vo: "validRef h0 ob" and vp: "validRef h0 put"
    and t0: "length h0 \<le> tnf"
    and IH: "\<And>h ob put res h'. prefix h0 h \<Longrightarrow> validRef h0 ob \<Longrightarrow> validRef h0 put
               \<Longrightarrow> malformed d isT h0 ob put
               \<Longrightarrow> p_setDeep n dev isT h ob put = Some (res, h') \<Longrightarrow> res = Inl MalformedMergePair"
  shows "keys_loop n dev isT h tnf ob put keys = Some (res, h') \<Longrightarrow> prefix h0 h
         \<Longrightarrow> tnf < length h
         \<Longrightarrow> list_ex (\<lambda>k. hasOwnProperty h0 put k
                    \<and> \<not> isT (getProp h0 ob k) (deref h0 (getProp h0 ob k))
                    \<and> \<not> isT (getProp h0 put k) (deref h0 (getProp h0 put k))
                    \<and> malformed d isT h0 (getProp h0 ob k) (getProp h0 put k)) keys
         \<Longrightarrow> res = Inl MalformedMergePair"
proof (induction keys arbitrary: h)
  case Nil
  then show ?case by simp
next
  case (Cons key keys)
  let ?vo = "getProp h0 ob key" and ?vp = "getProp h0 put key"
  let ?bad = "\<lambda>k. hasOwnProperty h0 put k
                    \<and> \<not> isT (getProp h0 ob k) (deref h0 (getProp h0 ob k))
                    \<and> \<not> isT (getProp h0 put k) (deref h0 (getProp h0 put k))
                    \<and> malformed d isT h0 (getProp h0 ob k) (getProp h0 put k)"
  have pre: "prefix h0 h" and lt: "tnf < length h" using Cons.prems by simp_all
  have dro: "deref h ob = deref h0 ob" and drp: "deref h put = deref h0 put"
    using pre vo vp by (simp_all add: deref_prefix)
  have reads: "getProp h ob key = ?vo" "getProp h put key = ?vp"
    "hasOwnProperty h put key = hasOwnProperty h0 put key"
    using reads_cong [OF dro] reads_cong [OF drp] by simp_all
  have vv: "validRef h0 ?vo" "validRef h0 ?vp" using wf by (simp_all add: wf_heap_validRef)
  have vals: "deref h ?vo = deref h0 ?vo" "deref h ?vp = deref h0 ?vp"
    using pre vv by (simp_all add: deref_prefix)
  have rest: "res = Inl MalformedMergePair"
    if loop: "keys_loop n dev isT (setField hi tnf key v) tnf ob put keys = Some (res, h')"
      and hi: "prefix h hi" and nb: "\<not> ?bad key" for hi v
  proof -
    have lti: "tnf < length hi" using lt hi prefix_length_le by fastforce
    have p1: "prefix h0 (setField hi tnf key v)"
      using pre hi t0 by (intro prefix_setField) (rule prefix_order.trans)
    have "list_ex ?bad keys" using Cons.prems(4) nb by simp
    then show ?thesis using Cons.IH [OF loop p1] lti by simp
  qed
  consider (absent) "\<not> hasOwnProperty h0 put key"
    | (leaf) "hasOwnProperty h0 put key" "isT ?vo (deref h0 ?vo) \<or> isT ?vp (deref h0 ?vp)"
    | (rec) "hasOwnProperty h0 put key" "\<not> isT ?vo (deref h0 ?vo)" "\<not> isT ?vp (deref h0 ?vp)"
    by blast
  then show ?case
  proof cases
    case absent
    have l: "keys_loop n dev isT (setField h tnf key ?vo) tnf ob put keys = Some (res, h')"
      using Cons.prems(1) absent by (simp add: reads)
    show ?thesis using l prefix_order.refl by (rule rest) (use absent in simp)
  next
    case leaf
    have l: "keys_loop n dev isT (setField h tnf key ?vp) tnf ob put keys = Some (res, h')"
      using Cons.prems(1) leaf by (auto simp: reads vals)
    show ?thesis using l prefix_order.refl by (rule rest) (use leaf in auto)
  next
    case rec
    from Cons.prems(1) rec obtain res1 hi where
      call: "p_setDeep n dev isT h ?vo ?vp = Some (res1, hi)"
      by (auto simp: reads vals split: option.splits)
    have hi: "prefix h hi" using call by (rule p_setDeep_prefix)
    show ?thesis
    proof (cases res1)
      case (Inl e)
      then have "res = Inl e" using Cons.prems(1) rec call by (simp add: reads vals)
      then show ?thesis using p_setDeep_error call Inl by blast
    next
      case (Inr v)
      have l: "keys_loop n dev isT (setField hi tnf key v) tnf ob put keys = Some (res, h')"
        using Cons.prems(1) rec call Inr by (simp add: reads vals)
      have "\<not> malformed d isT h0 ?vo ?vp"
        using IH [OF pre vv _ call] Inr by auto
      then show ?thesis using l hi by (intro rest) simp_all
    qed
  qed
qed

lemma p_setDeep_malformed_gen:
  assumes wf: "wf_heap h0"
  shows "prefix h0 h \<Longrightarrow> validRef h0 ob \<Longrightarrow> validRef h0 put \<Longrightarrow> malformed d isT h0 ob put
         \<Longrightarrow> p_setDeep n dev isT h ob put = Some (res, h') \<Longrightarrow> res = Inl MalformedMergePair"
proof (induction d arbitrary: n h ob put res h')
  case 0
  then have "\<not> checkMergeObjectArgs h ob put"
    by (simp add: checkMergeObjectArgs_prefix)
  then show ?case using "0.prems"(5) by (cases n) simp_all
next
  case (Suc d)
  obtain m where n: "n = Suc m" using Suc.prems(5) by (cases n) simp_all
  show ?case
  proof (cases "checkMergeObjectArgs h ob put")
    case False
    then show ?thesis using Suc.prems(5) n by simp
  next
    case True
    then have "checkMergeObjectArgs h0 ob put"
      using Suc.prems(1-3) by (simp add: checkMergeObjectArgs_prefix)
    then have bad: "list_ex (\<lambda>k. hasOwnProperty h0 put k
                    \<and> \<not> isT (getProp h0 ob k) (deref h0 (getProp h0 ob k))
                    \<and> \<not> isT (getProp h0 put k) (deref h0 (getProp h0 put k))
                    \<and> malformed d isT h0 (getProp h0 ob k) (getProp h0 put k)) (keysOf h0 ob)"
      using Suc.prems(4) by simp
    let ?t = "length h" and ?h1 = "h @ [emptyObject]"
    from Suc.prems(5) True n obtain res2 h2 where
      loop: "keys_loop m dev isT ?h1 ?t ob put (keysOf ?h1 ob) = Some (res2, h2)"
      by (auto simp: Let_def split: option.splits)
    have p1: "prefix h0 ?h1" using Suc.prems(1) by simp
    have "deref ?h1 ob = deref h0 ob" using p1 Suc.prems(2) by (rule deref_prefix)
    then have k1: "keysOf ?h1 ob = keysOf h0 ob" by (rule reads_cong)
    have t0: "length h0 \<le> ?t" using Suc.prems(1) by (rule prefix_length_le)
    have lt1: "?t < length ?h1" by simp
    have "res2 = Inl MalformedMergePair"
    proof (rule keys_loop_malformed [where n = m and dev = dev and isT = isT and d = d,
          OF wf Suc.prems(2,3) t0 _ loop [unfolded k1] p1 lt1 bad])
      show "res = Inl MalformedMergePair"
        if "prefix h0 h" "validRef h0 ob" "validRef h0 put" "malformed d isT h0 ob put"
          "p_setDeep m dev isT h ob put = Some (res, h')"
        for h ob put res h'
        using that by (rule Suc.IH)
    qed
    then show ?thesis using Suc.prems(5) True n loop by (simp add: Let_def)
  qed
qed

subsection \<open>Returning\<close>

lemma depth_le_non_object: "deref h v = None \<Longrightarrow> depth_le h d v"
  by (cases d) (simp_all add: ownProps_def)

lemma depth_le_getProp: "depth_le h (Suc d) ob \<Longrightarrow> depth_le h d (getProp h ob k)"
proof (cases "map_of (ownProps h ob) k")
  case None
  then have "getProp h ob k = Undefined" by (simp add: getProp_def)
  then show ?thesis by (simp add: depth_le_non_object deref_def)
next
  case (Some x)
  assume "depth_le h (Suc d) ob"
  moreover have "(k, x) \<in> set (ownProps h ob)" using Some by (rule map_of_SomeD)
  ultimately have "depth_le h d x" by (auto simp: list_all_iff)
  then show ?thesis using Some by (simp add: getProp_def)
qed

lemma keys_loop_returns:
  assumes wf: "wf_heap h0" and vo: "validRef h0 ob" and t0: "length h0 \<le> tnf"
    and IH: "\<And>h v put. prefix h0 h \<Longrightarrow> validRef h0 v \<Longrightarrow> depth_le h0 d v
               \<Longrightarrow> \<exists>res h'. p_setDeep n dev isT h v put = Some (res, h')"
    and children: "\<And>k. depth_le h0 d (getProp h0 ob k)"
  shows "prefix h0 h \<Longrightarrow> \<exists>res h'. keys_loop n dev isT h tnf ob put keys = Some (res, h')"
proof (induction keys arbitrary: h)
  case Nil
  show ?case by simp
next
  case (Cons key keys)
  let ?vo = "getProp h ob key" and ?vp = "getProp h put key"
  have dro: "deref h ob = deref h0 ob" using Cons.prems vo by (rule deref_prefix)
  have vo0: "?vo = getProp h0 ob key" using reads_cong [OF dro] by simp
  have step: "\<exists>res h'. keys_loop n dev isT (setField hi tnf key v) tnf ob put keys = Some (res, h')"
    if "prefix h hi" for hi v
  proof -
    have "prefix h0 (setField hi tnf key v)"
      using Cons.prems that t0 by (intro prefix_setField) (rule prefix_order.trans)
    then show ?thesis by (rule Cons.IH)
  qed
  consider (absent) "\<not> hasOwnProperty h put key"
    | (leaf) "hasOwnProperty h put key" "isT ?vo (deref h ?vo) \<or> isT ?vp (deref h ?vp)"
    | (rec) "hasOwnProperty h put key" "\<not> isT ?vo (deref h ?vo)" "\<not> isT ?vp (deref h ?vp)"
    by blast
  then show ?case
  proof cases
    case absent
    then show ?thesis using step [OF prefix_order.refl, of ?vo] by simp
  next
    case leaf
    then show ?thesis using step [OF prefix_order.refl, of ?vp] by auto
  next
    case rec
    have "validRef h0 ?vo" "depth_le h0 d ?vo"
      unfolding vo0 using wf children by (simp_all add: wf_heap_validRef)
    with Cons.prems obtain res hi where call: "p_setDeep n dev isT h ?vo ?vp = Some (res, hi)"
      using IH by blast
    show ?thesis
    proof (cases res)
      case (Inl e)
      then show ?thesis using rec call by simp
    next
      case (Inr v)
      have "prefix h hi" using call by (rule p_setDeep_prefix)
      then show ?thesis using step [of hi v] rec call Inr by simp
    qed
  qed
qed

lemma p_setDeep_returns_gen:
  assumes wf: "wf_heap h0"
  shows "prefix h0 h \<Longrightarrow> validRef h0 ob \<Longrightarrow> depth_le h0 d ob
         \<Longrightarrow> \<exists>res h'. p_setDeep (Suc d) dev isT h ob put = Some (res, h')"
proof (induction d arbitrary: h ob put)
  case 0
  then have "deref h ob = None" by (simp add: deref_prefix)
  then have "\<not> checkMergeObjectArgs h ob put"
    by (simp add: checkMergeObjectArgs_def isMapping_def)
  then show ?case by simp
next
  case (Suc d)
  show ?case
  proof (cases "checkMergeObjectArgs h ob put")
    case False
    then show ?thesis by simp
  next
    case True
    let ?t = "length h" and ?h1 = "h @ [emptyObject]"
    have p1: "prefix h0 ?h1" using Suc.prems(1) by simp
    have t0: "length h0 \<le> ?t" using Suc.prems(1) by (rule prefix_length_le)
    have "\<exists>res h'. keys_loop (Suc d) dev isT ?h1 ?t ob put (keysOf ?h1 ob) = Some (res, h')"
    proof (rule keys_loop_returns [where d = d, OF wf Suc.prems(2) t0 _ _ p1])
      show "\<exists>res h'. p_setDeep (Suc d) dev isT h v put = Some (res, h')"
        if "prefix h0 h" "validRef h0 v" "depth_le h0 d v" for h v put
        using that by (rule Suc.IH)
      show "depth_le h0 d (getProp h0 ob k)" for k
        using Suc.prems(3) by (rule depth_le_getProp)
    qed
    then obtain res h2 where
      loop: "keys_loop (Suc d) dev isT ?h1 ?t ob put (keysOf ?h1 ob) = Some (res, h2)"
      by blast
    show ?thesis
    proof (cases res)
      case (Inl e)
      then show ?thesis using True loop by (simp add: Let_def)
    next
      case (Inr u)
      then show ?thesis using True loop by (simp add: Let_def split: prod.splits)
    qed
  qed
qed

lemma p_setDeep_returns:
  assumes "wf_heap h" and "depth_le h d ob"
  shows "\<exists>res h'. p_setDeep (Suc d) dev isT h ob put = Some (res, h')"
proof (cases "validRef h ob")
  case True
  with assms show ?thesis by (intro p_setDeep_returns_gen [where ?h0.0 = h]) simp_all
next
  case False
  then have "deref h ob = None" by (cases ob) (simp_all add: validRef_def deref_def)
  then have "\<not> checkMergeObjectArgs h ob put"
    by (simp add: checkMergeObjectArgs_def isMapping_def)
  then show ?thesis by simp
qed

subsection \<open>More fuel does not change a result\<close>

text \<open>The fuel only bounds the depth of the recursion: a call that returns with some fuel
  returns the same with any larger one.\<close>

lemma keys_loop_fuel:
  assumes IH: "\<And>h ob put r. p_setDeep n dev isT h ob put = Some r
                 \<Longrightarrow> p_setDeep (Suc n) dev isT h ob put = Some r"
  shows "keys_loop n dev isT h tnf ob put keys = Some r
         \<Longrightarrow> keys_loop (Suc n) dev isT h tnf ob put keys = Some r"
proof (induction keys arbitrary: h)
  case Nil
  then show ?case by simp
next
  case (Cons key keys)
  let ?vo = "getProp h ob key" and ?vp = "getProp h put key"
  consider (absent) "\<not> hasOwnProperty h put key"
    | (leaf) "hasOwnProperty h put key" "isT ?vo (deref h ?vo) \<or> isT ?vp (deref h ?vp)"
    | (rec) "hasOwnProperty h put key" "\<not> isT ?vo (deref h ?vo)" "\<not> isT ?vp (deref h ?vp)"
    by blast
  then show ?case
  proof cases
    case absent
    then show ?thesis using Cons by simp
  next
    case leaf
    then show ?thesis using Cons by auto
  next
    case rec
    from Cons.prems rec obtain res hi where
      call: "p_setDeep n dev isT h ?vo ?vp = Some (res, hi)"
      by (auto split: option.splits)
    have call': "p_setDeep (Suc n) dev isT h ?vo ?vp = Some (res, hi)"
      using call by (rule IH)
    show ?thesis
    proof (cases res)
      case (Inl e)
      then show ?thesis using Cons.prems rec call call' by (simp del: p_setDeep.simps)
    next
      case (Inr v)
      then have "keys_loop n dev isT (setField hi tnf key v) tnf ob put keys = Some r"
        using Cons.prems rec call by simp
      then have "keys_loop (Suc n) dev isT (setField hi tnf key v) tnf ob put keys = Some r"
        by (rule Cons.IH)
      then show ?thesis using rec call' Inr by (simp del: p_setDeep.simps)
    qed
  qed
qed

lemma p_setDeep_fuel_Suc:
  "p_setDeep n dev isT h ob put = Some r \<Longrightarrow> p_setDeep (Suc n) dev isT h ob put = Some r"
proof (induction n arbitrary: h ob put r)
  case 0
  then show ?case by simp
next
  case (Suc n)
  show ?case
  proof (cases "checkMergeObjectArgs h ob put")
    case False
    then show ?thesis using Suc.prems by simp
  next
    case True
    let ?t = "length h" and ?h1 = "h @ [emptyObject]"
    from Suc.prems True obtain res h2 where
      loop: "keys_loop n dev isT ?h1 ?t ob put (keysOf ?h1 ob) = Some (res, h2)"
      by (auto simp: Let_def split: option.splits)
    have loop': "keys_loop (Suc n) dev isT ?h1 ?t ob put (keysOf ?h1 ob) = Some (res, h2)"
    proof (rule keys_loop_fuel [where n = n and dev = dev and isT = isT])
      show "p_setDeep (Suc n) dev isT h ob put = Some r"
        if "p_setDeep n dev isT h ob put = Some r" for h ob put r
        using that by (rule Suc.IH)
      show "keys_loop n dev isT ?h1 ?t ob put (keysOf ?h1 ob) = Some (res, h2)" by (rule loop)
    qed
    have "p_setDeep (Suc (Suc n)) dev isT h ob put = p_setDeep (Suc n) dev isT h ob put"
      using True loop loop' by (simp add: Let_def del: keys_loop.simps)
    then show ?thesis using Suc.prems by simp
  qed
qed

lemma p_setDeep_fuel_mono:
  "p_setDeep n dev isT h ob put = Some r \<Longrightarrow> n \<le> m \<Longrightarrow> p_setDeep m dev isT h ob put = Some r"
proof (induction m)
  case 0
  then show ?case by simp
next
  case (Suc m)
  show ?case
  proof (cases "n = Suc m")
    case True
    then show ?thesis using Suc.prems by simp
  next
    case False
    then have "p_setDeep m dev isT h ob put = Some r" using Suc by simp
    then show ?thesis by (rule p_setDeep_fuel_Suc)
  qed
qed

section \<open>No operation writes to an object it was given\<close>

lemma ImmutableObject_set_prefix:
  "prefix h0 h \<Longrightarrow> prefix h0 (snd (ImmutableObject_set dev h B P))"
proof -
  assume pre: "prefix h0 h"
  obtain r h' where new: "ImmutableObject_new dev h [B, P] = (r, h')"
    by (cases "ImmutableObject_new dev h [B, P]")
  then have "prefix h0 h'" using pre by (rule ImmutableObject_new_prefix)
  then show ?thesis using pre new by (simp add: ImmutableObject_set_def)
qed

lemma deleteProperty_loop_grows: "grows_at h copy (deleteProperty_loop h copy ob d keys)"
proof (induction keys arbitrary: h)
  case Nil
  show ?case by (simp add: grows_at_refl)
next
  case (Cons key keys)
  show ?case
  proof (cases "key \<noteq> d \<and> hasOwnProperty h ob key")
    case False
    then show ?thesis using Cons.IH [of h] by auto
  next
    case True
    let ?h1 = "setField h copy key (getProp h ob key)"
    show ?thesis
    proof (cases "copy < length h")
      case lt: True
      have "grows_at h copy (deleteProperty_loop ?h1 copy ob d keys)"
        using grows_at_setField Cons.IH lt by (rule grows_at_trans)
      then show ?thesis using True by simp
    next
      case out: False
      then have "?h1 = h" by (simp add: setField_def list_update_beyond)
      then show ?thesis using True Cons.IH [of h] by simp
    qed
  qed
qed

lemma ImmutableObject_setProperty_prefix:
  "prefix h (snd (ImmutableObject_setProperty dev h B name v))"
proof -
  have "prefix h (setField (h @ [emptyObject]) (length h) name v)"
    by (intro prefix_setField) simp_all
  then show ?thesis
    unfolding ImmutableObject_setProperty_def Let_def by (rule ImmutableObject_set_prefix)
qed

lemma ImmutableObject_deleteProperty_prefix:
  "prefix h (snd (ImmutableObject_deleteProperty dev h B name))"
proof -
  let ?h1 = "h @ [emptyObject]"
  let ?h2 = "deleteProperty_loop ?h1 (length h) B name (keysOf ?h1 B)"
  have p2: "prefix h ?h2"
    using deleteProperty_loop_grows by (rule grows_at_fresh)
  obtain r h' where new: "ImmutableObject_new dev ?h2 [Ref (length h)] = (r, h')"
    by (cases "ImmutableObject_new dev ?h2 [Ref (length h)]")
  then have "prefix h h'" using p2 by (rule ImmutableObject_new_prefix)
  then show ?thesis using new by (simp add: ImmutableObject_deleteProperty_def Let_def)
qed

lemma ImmutableObject_setDeep_prefix:
  "ImmutableObject_setDeep n dev isT h B P = Some (res, h') \<Longrightarrow> prefix h h'"
  by (auto simp: ImmutableObject_setDeep_def dest: p_setDeep_prefix split: if_splits)

text \<open>
  \<^bold>\<open>C3\<close> (non-mutation). Whatever \<^verbatim>\<open>set\<close>, \<^verbatim>\<open>setProperty\<close>, \<^verbatim>\<open>deleteProperty\<close> and
  \<^verbatim>\<open>setDeep\<close> are called with, and whether they return a value or throw, the store before
  the call is an initial segment of the store after it: every object that existed, the
  base, the patch and all they refer to among them, is afterwards what it was, entries,
  values and all; the calls write into objects they have allocated themselves.
\<close>

theorem merge_operations_leave_inputs_unchanged:
  "prefix h (snd (ImmutableObject_set dev h B P))
   \<and> prefix h (snd (ImmutableObject_setProperty dev h B name v))
   \<and> prefix h (snd (ImmutableObject_deleteProperty dev h B name))
   \<and> (\<forall>res h'. ImmutableObject_setDeep n dev isT h B P = Some (res, h') \<longrightarrow> prefix h h')"
  using ImmutableObject_set_prefix [of h h dev B P] ImmutableObject_setProperty_prefix
    ImmutableObject_deleteProperty_prefix ImmutableObject_setDeep_prefix
  by blast

lemma deep_run:
  "ImmutableObject_setDeep (Suc (Suc 0)) True isTerminal deep_heap (Ref 0) (Ref 2) =
   Some (Inr (Ref 7), deep_heap @
     [\<lparr>kind = PlainObject, props = [(''k'', Ref 6)], frozen = False\<rparr>,
      \<lparr>kind = PlainObject, props = [(''m'', Num 1), (''n'', Num 9), (''p'', Num 3)], frozen = False\<rparr>,
      \<lparr>kind = ImmutableValue, props = [(''k'', Ref 6)], frozen = True\<rparr>])"
  by code_simp

theorem merge_operations_leave_inputs_unchanged_witness:
  "\<exists>r h'. ImmutableObject_setDeep (Suc (Suc 0)) True isTerminal deep_heap (Ref 0) (Ref 2) = Some (Inr r, h')
     \<and> prefix deep_heap h'
     \<and> ownProps h' (Ref 0) = [(''k'', Ref 1)]
     \<and> ownProps h' (Ref 1) = [(''m'', Num 1), (''n'', Num 2)]
     \<and> ownProps h' (Ref 2) = [(''k'', Ref 3)]
     \<and> ownProps h' (Ref 3) = [(''n'', Num 9), (''p'', Num 3)]"
proof -
  let ?h' = "deep_heap @
     [\<lparr>kind = PlainObject, props = [(''k'', Ref 6)], frozen = False\<rparr>,
      \<lparr>kind = PlainObject, props = [(''m'', Num 1), (''n'', Num 9), (''p'', Num 3)], frozen = False\<rparr>,
      \<lparr>kind = ImmutableValue, props = [(''k'', Ref 6)], frozen = True\<rparr>]"
  have pre: "prefix deep_heap ?h'"
    using merge_operations_leave_inputs_unchanged
      [of deep_heap True "Ref 0" "Ref 2" "''k''" Null "Suc (Suc 0)" isTerminal] deep_run
    by blast
  have "ownProps ?h' (Ref 0) = [(''k'', Ref 1)]"
    "ownProps ?h' (Ref 1) = [(''m'', Num 1), (''n'', Num 2)]"
    "ownProps ?h' (Ref 2) = [(''k'', Ref 3)]"
    "ownProps ?h' (Ref 3) = [(''n'', Num 9), (''p'', Num 3)]"
    by code_simp+
  then show ?thesis using deep_run pre by blast
qed

section \<open>What the recursive merge guarantees\<close>

text \<open>
  The statements below are about \<open>p_setDeep\<close>, that is about every level of the
  recursion, the outermost included: \<^verbatim>\<open>ImmutableObject.setDeep\<close> is \<^verbatim>\<open>_setDeep\<close> behind
  \<^verbatim>\<open>assertImmutable\<close>. Each of them has two parts. A call whose base is nested at most \<open>d\<close>
  deep returns with fuel \<open>Suc d\<close> (and, by \<open>p_setDeep_fuel_mono\<close>, returns the same with
  any more); and whatever a call returns, with whatever fuel, has the property.

  \<^verbatim>\<open>_setDeep\<close> writes with \<^verbatim>\<open>totalNewFields[key] = ...\<close> and asks
  \<^verbatim>\<open>put.hasOwnProperty(key)\<close> and \<^verbatim>\<open>obj.hasOwnProperty(newKey)\<close> through the objects it is
  given. What it stores under a key and which branch it takes are as below for objects
  with ordinary property names (\<^const>\<open>ordinary_names\<close>); the statements about entries
  carry that hypothesis.
\<close>

lemma ImmutableObject_setDeep_immutable:
  "instanceofImmutableValue h B
   \<Longrightarrow> ImmutableObject_setDeep n dev isT h B P = p_setDeep n dev isT h B P"
  by (simp add: ImmutableObject_setDeep_def)

lemma ImmutableObject_setDeep_not_immutable:
  "\<not> instanceofImmutableValue h B
   \<Longrightarrow> ImmutableObject_setDeep n dev isT h B P = Some (Inl NotImmutable, h)"
  by (simp add: ImmutableObject_setDeep_def)

subsection \<open>Runs on the example stores\<close>

lemma leaf_run:
  "p_setDeep (Suc 0) True isTerminal leaf_heap (Ref 0) (Ref 2) =
   Some (Inr (Ref 4), leaf_heap @
     [\<lparr>kind = PlainObject, props = [(''k'', Num 5)], frozen = False\<rparr>,
      \<lparr>kind = ImmutableValue, props = [(''k'', Num 5)], frozen = True\<rparr>])"
  by code_simp

lemma deep_run_rec:
  "p_setDeep (Suc (Suc 0)) True isTerminal deep_heap (Ref 0) (Ref 2) =
   Some (Inr (Ref 7), deep_heap @
     [\<lparr>kind = PlainObject, props = [(''k'', Ref 6)], frozen = False\<rparr>,
      \<lparr>kind = PlainObject, props = [(''m'', Num 1), (''n'', Num 9), (''p'', Num 3)], frozen = False\<rparr>,
      \<lparr>kind = ImmutableValue, props = [(''k'', Ref 6)], frozen = True\<rparr>])"
  by code_simp

lemma wf_leaf_heap: "wf_heap leaf_heap"
  by code_simp

lemma wf_deep_heap: "wf_heap deep_heap"
  by code_simp

lemma wf_array_heap: "wf_heap array_heap"
  by code_simp

lemma ordinary_leaf_heap: "ordinary_names leaf_heap"
  by code_simp

lemma ordinary_deep_heap: "ordinary_names deep_heap"
  by code_simp

subsection \<open>Terminal values, the walk, sharing, wrapping, errors\<close>

text \<open>
  \<^bold>\<open>C4\<close> (a terminal side replaces), for objects with ordinary property names. In a
  well-formed store in which no object has an own property named \<^verbatim>\<open>__proto__\<close> or
  \<^verbatim>\<open>hasOwnProperty\<close>, whatever the classifier: a call of \<^verbatim>\<open>_setDeep\<close> whose base is
  nested finitely deep returns; and whenever a call returns a value, at every key \<open>k\<close>
  that base and patch both have and at which the value of the base or the value of the
  patch is terminal, the result holds the value of the patch itself, nothing merged.
\<close>

lemma setDeep_terminal_side_replaces:
  assumes "wf_heap h" and "k \<in> set (keysOf h ob)" and "k \<in> set (keysOf h put)"
    and "isT (getProp h ob k) (deref h (getProp h ob k))
         \<or> isT (getProp h put k) (deref h (getProp h put k))"
    and "ordinary_names h"
  shows "(depth_le h d ob \<longrightarrow> (\<exists>res h'. p_setDeep (Suc d) dev isT h ob put = Some (res, h')))
       \<and> (\<forall>n r h'. p_setDeep n dev isT h ob put = Some (Inr r, h')
             \<longrightarrow> getProp h' r k = getProp h put k)"
proof (intro conjI impI allI)
  assume "depth_le h d ob"
  with assms(1) show "\<exists>res h'. p_setDeep (Suc d) dev isT h ob put = Some (res, h')"
    by (rule p_setDeep_returns)
next
  fix n r h'
  assume "p_setDeep n dev isT h ob put = Some (Inr r, h')"
  from p_setDeep_base_key [OF assms(1) this assms(2)]
  obtain m where "merged_value m dev isT h h' (length h) ob put k (getProp h' r k)" by blast
  then show "getProp h' r k = getProp h put k"
    using assms(3,4) by (auto simp: merged_value_def hasOwnProperty_def Let_def)
qed

lemma setDeep_terminal_side_replaces_example:
  "wf_heap leaf_heap \<and> ''k'' \<in> set (keysOf leaf_heap (Ref 0)) \<and> ''k'' \<in> set (keysOf leaf_heap (Ref 2))
   \<and> isTerminal (getProp leaf_heap (Ref 2) ''k'') (deref leaf_heap (getProp leaf_heap (Ref 2) ''k''))
   \<and> \<not> isTerminal (getProp leaf_heap (Ref 0) ''k'') (deref leaf_heap (getProp leaf_heap (Ref 0) ''k''))
   \<and> (\<exists>r h'. p_setDeep (Suc 0) True isTerminal leaf_heap (Ref 0) (Ref 2) = Some (Inr r, h')
         \<and> getProp h' r ''k'' = Num 5 \<and> keysOf h' r = [''k''])"
proof -
  have k0: "''k'' \<in> set (keysOf leaf_heap (Ref 0))" and k2: "''k'' \<in> set (keysOf leaf_heap (Ref 2))"
    by code_simp+
  have v2: "getProp leaf_heap (Ref 2) ''k'' = Num 5"
    by code_simp
  have t2: "isTerminal (getProp leaf_heap (Ref 2) ''k'') (deref leaf_heap (getProp leaf_heap (Ref 2) ''k''))"
    unfolding v2 by (simp add: isTerminal_def isMapping_def deref_def)
  have t0: "\<not> isTerminal (getProp leaf_heap (Ref 0) ''k'') (deref leaf_heap (getProp leaf_heap (Ref 0) ''k''))"
    by code_simp
  let ?h' = "leaf_heap @
     [\<lparr>kind = PlainObject, props = [(''k'', Num 5)], frozen = False\<rparr>,
      \<lparr>kind = ImmutableValue, props = [(''k'', Num 5)], frozen = True\<rparr>]"
  have tt: "isTerminal (getProp leaf_heap (Ref 0) ''k'') (deref leaf_heap (getProp leaf_heap (Ref 0) ''k''))
      \<or> isTerminal (getProp leaf_heap (Ref 2) ''k'') (deref leaf_heap (getProp leaf_heap (Ref 2) ''k''))"
    using t2 by (rule disjI2)
  have "getProp ?h' (Ref 4) ''k'' = getProp leaf_heap (Ref 2) ''k''"
    using setDeep_terminal_side_replaces [where isT = isTerminal and d = 0 and dev = True,
        OF wf_leaf_heap k0 k2 tt ordinary_leaf_heap] leaf_run
    by blast
  then have "getProp ?h' (Ref 4) ''k'' = Num 5" unfolding v2 .
  moreover have "keysOf ?h' (Ref 4) = [''k'']"
    by code_simp
  ultimately show ?thesis using wf_leaf_heap k0 k2 t2 t0 leaf_run by blast
qed

text \<open>
  The walk of \<^verbatim>\<open>_setDeep\<close>, for objects with ordinary property names. In a well-formed
  store in which no object has an own property named \<^verbatim>\<open>__proto__\<close> or
  \<^verbatim>\<open>hasOwnProperty\<close>, whatever the classifier: a call whose base and patch are both
  mapping-shaped and whose base is nested finitely deep returns, a value or the error of a
  pair further down; and whenever a call returns a value, base and patch were both
  mapping-shaped, and the keys of the result are, in the order of enumeration, the keys
  of the base followed by the keys that only the patch has. When none of the latter is an
  array index they are that sequence itself: the keys of the base in the order of the
  base, then the keys that only the patch has in the order of the patch. Such a key
  carries the value of the patch as it is, and a key of both at which neither value is
  terminal carries what the recursive call of \<^verbatim>\<open>_setDeep\<close> on the two values returned
  (in a well-formed store that extends the one of the call, so that all of this holds of
  the nested result in turn; what that call built is in the final store as it was
  returned, the accumulator of the enclosing call at address \<open>length h\<close> being the one
  object written to afterwards).
\<close>

lemma setDeep_walks_base_then_appends:
  assumes wf: "wf_heap h" and names: "ordinary_names h"
  shows "(checkMergeObjectArgs h ob put \<and> depth_le h d ob
            \<longrightarrow> (\<exists>res h'. p_setDeep (Suc d) dev isT h ob put = Some (res, h')))
       \<and> (\<forall>n r h'. p_setDeep n dev isT h ob put = Some (Inr r, h') \<longrightarrow>
             checkMergeObjectArgs h ob put
           \<and> keysOf h' r
               = enumerationKeys (keysOf h ob @ filter (\<lambda>k. k \<notin> set (keysOf h ob)) (keysOf h put))
           \<and> ((\<forall>k \<in> set (keysOf h put). k \<notin> set (keysOf h ob) \<longrightarrow> \<not> isArrayIndex k)
                \<longrightarrow> keysOf h' r = keysOf h ob @ filter (\<lambda>k. k \<notin> set (keysOf h ob)) (keysOf h put))
           \<and> (\<forall>k \<in> set (keysOf h put). k \<notin> set (keysOf h ob) \<longrightarrow> getProp h' r k = getProp h put k)
           \<and> (\<forall>k \<in> set (keysOf h ob). k \<in> set (keysOf h put)
                \<longrightarrow> \<not> isT (getProp h ob k) (deref h (getProp h ob k))
                \<longrightarrow> \<not> isT (getProp h put k) (deref h (getProp h put k))
                \<longrightarrow> (\<exists>hi hi'. prefix h hi \<and> wf_heap hi
                       \<and> p_setDeep (n - 1) dev isT hi (getProp h ob k) (getProp h put k)
                           = Some (Inr (getProp h' r k), hi')
                       \<and> length hi' \<le> length h'
                       \<and> (\<forall>a < length hi'. a \<noteq> length h \<longrightarrow> h' ! a = hi' ! a))))"
proof (intro conjI impI allI ballI)
  assume "checkMergeObjectArgs h ob put \<and> depth_le h d ob"
  then have "depth_le h d ob" ..
  with wf show "\<exists>res h'. p_setDeep (Suc d) dev isT h ob put = Some (res, h')"
    by (rule p_setDeep_returns)
next
  fix n r h'
  assume res: "p_setDeep n dev isT h ob put = Some (Inr r, h')"
  let ?ks = "keysOf h ob @ filter (\<lambda>k. k \<notin> set (keysOf h ob)) (keysOf h put)"
  show "checkMergeObjectArgs h ob put"
    using p_setDeep_result [OF wf res] by blast
  show keys: "keysOf h' r = enumerationKeys ?ks"
    using wf res by (rule p_setDeep_keys)
  show "keysOf h' r = ?ks"
    if "\<forall>k \<in> set (keysOf h put). k \<notin> set (keysOf h ob) \<longrightarrow> \<not> isArrayIndex k"
  proof -
    have "\<forall>k \<in> set (filter (\<lambda>k. k \<notin> set (keysOf h ob)) (keysOf h put)). \<not> isArrayIndex k"
      using that by simp
    then show ?thesis unfolding keys by (simp add: enumerationKeys_append_ordinary)
  qed
  show "getProp h' r k = getProp h put k"
    if "k \<in> set (keysOf h put)" "k \<notin> set (keysOf h ob)" for k
    using wf res that by (rule p_setDeep_put_only)
  show "\<exists>hi hi'. prefix h hi \<and> wf_heap hi
          \<and> p_setDeep (n - 1) dev isT hi (getProp h ob k) (getProp h put k)
              = Some (Inr (getProp h' r k), hi')
          \<and> length hi' \<le> length h'
          \<and> (\<forall>a < length hi'. a \<noteq> length h \<longrightarrow> h' ! a = hi' ! a)"
    if k: "k \<in> set (keysOf h ob)" "k \<in> set (keysOf h put)"
      and nt: "\<not> isT (getProp h ob k) (deref h (getProp h ob k))"
        "\<not> isT (getProp h put k) (deref h (getProp h put k))"
    for k
  proof -
    from p_setDeep_base_key [OF wf res k(1)]
    obtain m where n: "n = Suc m"
      and mv: "merged_value m dev isT h h' (length h) ob put k (getProp h' r k)"
      by blast
    show ?thesis
      using mv k(2) nt unfolding n by (simp add: merged_value_def hasOwnProperty_def Let_def)
  qed
qed

lemma setDeep_walks_base_then_appends_example:
  "wf_heap deep_heap \<and> depth_le deep_heap 2 (Ref 0)
   \<and> (\<exists>r h'. p_setDeep (Suc (Suc 0)) True isTerminal deep_heap (Ref 0) (Ref 2) = Some (Inr r, h')
         \<and> keysOf h' r = [''k'']
         \<and> keysOf h' (getProp h' r ''k'') = [''m'', ''n'', ''p'']
         \<and> getProp h' (getProp h' r ''k'') ''m'' = Num 1
         \<and> getProp h' (getProp h' r ''k'') ''n'' = Num 9
         \<and> getProp h' (getProp h' r ''k'') ''p'' = Num 3)"
proof -
  let ?h' = "deep_heap @
     [\<lparr>kind = PlainObject, props = [(''k'', Ref 6)], frozen = False\<rparr>,
      \<lparr>kind = PlainObject, props = [(''m'', Num 1), (''n'', Num 9), (''p'', Num 3)], frozen = False\<rparr>,
      \<lparr>kind = ImmutableValue, props = [(''k'', Ref 6)], frozen = True\<rparr>]"
  have d: "depth_le deep_heap 2 (Ref 0)" by code_simp
  have kB: "keysOf deep_heap (Ref 0) = [''k'']" and kP: "keysOf deep_heap (Ref 2) = [''k'']"
    by code_simp+
  have "(\<forall>k \<in> set (keysOf deep_heap (Ref 2)). k \<notin> set (keysOf deep_heap (Ref 0)) \<longrightarrow> \<not> isArrayIndex k)
        \<longrightarrow> keysOf ?h' (Ref 7)
        = keysOf deep_heap (Ref 0) @ filter (\<lambda>k. k \<notin> set (keysOf deep_heap (Ref 0))) (keysOf deep_heap (Ref 2))"
    using setDeep_walks_base_then_appends [OF wf_deep_heap ordinary_deep_heap, of "Ref 0" "Ref 2" 0 True isTerminal]
      deep_run_rec
    by blast
  then have keys: "keysOf ?h' (Ref 7) = [''k'']" unfolding kB kP by simp
  have inner: "getProp ?h' (Ref 7) ''k'' = Ref 6"
    by code_simp
  have "keysOf ?h' (getProp ?h' (Ref 7) ''k'') = [''m'', ''n'', ''p'']"
    "getProp ?h' (getProp ?h' (Ref 7) ''k'') ''m'' = Num 1"
    "getProp ?h' (getProp ?h' (Ref 7) ''k'') ''n'' = Num 9"
    "getProp ?h' (getProp ?h' (Ref 7) ''k'') ''p'' = Num 3"
    by code_simp+
  then show ?thesis
    using wf_deep_heap d deep_run_rec keys by blast
qed

text \<open>
  \<^bold>\<open>C5\<close> (the walk of \<^verbatim>\<open>_setDeep\<close>) does not hold of a key that only the patch has and
  that is an array index. \<^verbatim>\<open>setDeep({a: 1}, {'1': 'y'})\<close> copies the entry \<open>a\<close> of the
  base first and assigns the key \<open>1\<close> of the patch last, into the object at address 2,
  and the keys of that object, and of the Immutable Value at address 3 that is returned,
  are \<^verbatim>\<open>['1', 'a']\<close>: the new key is listed before the key of the base, where the keys of
  the base followed by the new keys are \<^verbatim>\<open>['a', '1']\<close>.
\<close>

theorem setDeep_lists_array_index_key_first:
  "ImmutableObject_setDeep (Suc 0) True isTerminal index_heap (Ref 0) (Ref 1) =
     Some (Inr (Ref 3),
       index_heap @
       [\<lparr>kind = PlainObject, props = [(''a'', Num 1), (''1'', Str ''y'')], frozen = False\<rparr>,
        \<lparr>kind = ImmutableValue, props = [(''1'', Str ''y''), (''a'', Num 1)], frozen = True\<rparr>])
   \<and> keysOf (index_heap @
        [\<lparr>kind = PlainObject, props = [(''a'', Num 1), (''1'', Str ''y'')], frozen = False\<rparr>,
         \<lparr>kind = ImmutableValue, props = [(''1'', Str ''y''), (''a'', Num 1)], frozen = True\<rparr>])
        (Ref 2) = [''1'', ''a'']
   \<and> keysOf (index_heap @
        [\<lparr>kind = PlainObject, props = [(''a'', Num 1), (''1'', Str ''y'')], frozen = False\<rparr>,
         \<lparr>kind = ImmutableValue, props = [(''1'', Str ''y''), (''a'', Num 1)], frozen = True\<rparr>])
        (Ref 3) = [''1'', ''a'']
   \<and> keysOf index_heap (Ref 0)
       @ filter (\<lambda>k. k \<notin> set (keysOf index_heap (Ref 0))) (keysOf index_heap (Ref 1))
       = [''a'', ''1'']"
  by code_simp

lemma p_setDeep_empty_patch:
  assumes wf: "wf_heap h" and res: "p_setDeep n dev isT h ob put = Some (Inr r, h')"
    and empty: "keysOf h put = []"
  shows "ownProps h' r = ownProps h ob"
proof -
  from p_setDeep_result [OF wf res] obtain m ents where
    own: "ownProps h' r = enumerationOrder (ents @ put_only h ob put)"
    and ks: "map fst ents = keysOf h ob"
    and mv: "\<forall>(k, v) \<in> set ents. merged_value m dev isT h h' (length h) ob put k v"
    by blast
  have none: "put_only h ob put = []" using empty by (simp add: put_only_def)
  have vals: "v = getProp h ob k" if "(k, v) \<in> set ents" for k v
    using mv that empty by (auto simp: merged_value_def hasOwnProperty_def Let_def)
  have "ents = map (\<lambda>k. (k, getProp h ob k)) (map fst ents)"
    using vals by (induction ents) auto
  also have "\<dots> = map (\<lambda>k. (k, getProp h ob k)) (map fst (ownProps h ob))"
    using ks by (simp add: keysOf_def)
  also have "\<dots> = ownProps h ob"
    using entries_of_keys [of "ownProps h ob"] wf_heap_distinct [OF wf, of ob]
    by (simp add: keysOf_def getProp_def)
  finally show ?thesis using own by (simp add: none)
qed

text \<open>
  \<^bold>\<open>C9\<close> (untouched sub-trees are shared), for objects with ordinary property names.
  In a well-formed store in which no object has an own property named \<^verbatim>\<open>__proto__\<close> or
  \<^verbatim>\<open>hasOwnProperty\<close>, whatever the classifier: a call whose base is nested finitely deep
  returns; and whenever a call
  returns a value, at every key of the base that the patch lacks the result holds the
  very value the base holds (for an object, the same reference), and the object it
  refers to is what it was before the call. For a patch without keys, the entries of the
  result are the entries of the base, reference for reference.
\<close>

lemma setDeep_shares_untouched_values:
  assumes wf: "wf_heap h" and names: "ordinary_names h"
  shows "(depth_le h d ob \<longrightarrow> (\<exists>res h'. p_setDeep (Suc d) dev isT h ob put = Some (res, h')))
       \<and> (\<forall>n r h'. p_setDeep n dev isT h ob put = Some (Inr r, h') \<longrightarrow>
             (\<forall>k \<in> set (keysOf h ob). k \<notin> set (keysOf h put)
                \<longrightarrow> getProp h' r k = getProp h ob k
                  \<and> deref h' (getProp h ob k) = deref h (getProp h ob k))
           \<and> (keysOf h put = [] \<longrightarrow> ownProps h' r = ownProps h ob))"
proof (intro conjI impI allI ballI)
  assume "depth_le h d ob"
  with wf show "\<exists>res h'. p_setDeep (Suc d) dev isT h ob put = Some (res, h')"
    by (rule p_setDeep_returns)
next
  fix n r h'
  assume res: "p_setDeep n dev isT h ob put = Some (Inr r, h')"
  show "getProp h' r k = getProp h ob k"
    if k: "k \<in> set (keysOf h ob)" "k \<notin> set (keysOf h put)" for k
  proof -
    from p_setDeep_base_key [OF wf res k(1)]
    obtain m where "merged_value m dev isT h h' (length h) ob put k (getProp h' r k)" by blast
    then show ?thesis using k(2) by (simp add: merged_value_def hasOwnProperty_def Let_def)
  qed
  show "deref h' (getProp h ob k) = deref h (getProp h ob k)" for k
    using p_setDeep_prefix [OF res] wf by (intro deref_prefix wf_heap_validRef)
  show "ownProps h' r = ownProps h ob" if "keysOf h put = []"
    using wf res that by (rule p_setDeep_empty_patch)
qed

lemma deep_run_empty:
  "p_setDeep (Suc 0) True isTerminal deep_heap (Ref 0) (Ref 4) =
   Some (Inr (Ref 6), deep_heap @
     [\<lparr>kind = PlainObject, props = [(''k'', Ref 1)], frozen = False\<rparr>,
      \<lparr>kind = ImmutableValue, props = [(''k'', Ref 1)], frozen = True\<rparr>])"
  by code_simp

lemma setDeep_shares_untouched_values_example:
  "wf_heap deep_heap \<and> keysOf deep_heap (Ref 4) = []
   \<and> (\<exists>r h'. p_setDeep (Suc 0) True isTerminal deep_heap (Ref 0) (Ref 4) = Some (Inr r, h')
         \<and> ownProps h' r = [(''k'', Ref 1)] \<and> getProp deep_heap (Ref 0) ''k'' = Ref 1
         \<and> ownProps h' (Ref 1) = [(''m'', Num 1), (''n'', Num 2)])"
proof -
  let ?h' = "deep_heap @
     [\<lparr>kind = PlainObject, props = [(''k'', Ref 1)], frozen = False\<rparr>,
      \<lparr>kind = ImmutableValue, props = [(''k'', Ref 1)], frozen = True\<rparr>]"
  have e: "keysOf deep_heap (Ref 4) = []"
    by code_simp
  have oB: "ownProps deep_heap (Ref 0) = [(''k'', Ref 1)]"
    by code_simp
  have "ownProps ?h' (Ref 6) = ownProps deep_heap (Ref 0)"
    using setDeep_shares_untouched_values [OF wf_deep_heap ordinary_deep_heap, of 0 "Ref 0" True isTerminal "Ref 4"]
      deep_run_empty e
    by blast
  then have "ownProps ?h' (Ref 6) = [(''k'', Ref 1)]" unfolding oB .
  moreover have "getProp deep_heap (Ref 0) ''k'' = Ref 1"
    by code_simp
  moreover have "ownProps ?h' (Ref 1) = [(''m'', Num 1), (''n'', Num 2)]"
    by code_simp
  ultimately show ?thesis using wf_deep_heap e deep_run_empty by blast
qed

text \<open>
  \<^bold>\<open>C6\<close> (wrapping), as the code has it. In a well-formed store, whatever the
  classifier: a call whose base is nested finitely deep returns; and whenever a call of
  \<^verbatim>\<open>_setDeep\<close>, at any level, returns a value, that value is a new object, which is an
  instance of \<^verbatim>\<open>ImmutableValue\<close> exactly when the base or the patch of that call is one;
  otherwise it is a plain object that is not frozen. The constructor freezes the new
  instance under \<^verbatim>\<open>__DEV__\<close> only: it is frozen exactly in a development build.
\<close>

theorem setDeep_wraps_iff_immutable_side:
  assumes "wf_heap h"
  shows "(depth_le h d ob \<longrightarrow> (\<exists>res h'. p_setDeep (Suc d) dev isT h ob put = Some (res, h')))
       \<and> (\<forall>n r h'. p_setDeep n dev isT h ob put = Some (Inr r, h') \<longrightarrow>
             deref h r = None
           \<and> (\<exists>new. deref h' r = Some new
                 \<and> (kind new = ImmutableValue
                      \<longleftrightarrow> instanceofImmutableValue h ob \<or> instanceofImmutableValue h put)
                 \<and> (kind new \<noteq> ImmutableValue \<longrightarrow> kind new = PlainObject \<and> \<not> frozen new)
                 \<and> (kind new = ImmutableValue \<longrightarrow> frozen new = dev)))"
proof (intro conjI impI allI)
  assume "depth_le h d ob"
  with assms show "\<exists>res h'. p_setDeep (Suc d) dev isT h ob put = Some (res, h')"
    by (rule p_setDeep_returns)
next
  fix n r h'
  assume res: "p_setDeep n dev isT h ob put = Some (Inr r, h')"
  from p_setDeep_wrapping [OF assms res] obtain a where
    r: "r = Ref a" "length h \<le> a" "a < length h'"
    and k: "kind (h' ! a) = (if instanceofImmutableValue h ob \<or> instanceofImmutableValue h put
                               then ImmutableValue else PlainObject)"
    and f: "frozen (h' ! a) = (dev \<and> (instanceofImmutableValue h ob \<or> instanceofImmutableValue h put))"
    by blast
  show "deref h r = None" using r by (simp add: deref_def)
  have "deref h' r = Some (h' ! a)" using r by (simp add: deref_def)
  moreover have "kind (h' ! a) = ImmutableValue
      \<longleftrightarrow> instanceofImmutableValue h ob \<or> instanceofImmutableValue h put"
    using k by simp
  moreover have "kind (h' ! a) \<noteq> ImmutableValue \<longrightarrow> kind (h' ! a) = PlainObject \<and> \<not> frozen (h' ! a)"
    using k f by (simp split: if_splits)
  moreover have "kind (h' ! a) = ImmutableValue \<longrightarrow> frozen (h' ! a) = dev"
    using k f by (simp split: if_splits)
  ultimately show "\<exists>new. deref h' r = Some new
                 \<and> (kind new = ImmutableValue
                      \<longleftrightarrow> instanceofImmutableValue h ob \<or> instanceofImmutableValue h put)
                 \<and> (kind new \<noteq> ImmutableValue \<longrightarrow> kind new = PlainObject \<and> \<not> frozen new)
                 \<and> (kind new = ImmutableValue \<longrightarrow> frozen new = dev)"
    by blast
qed

theorem setDeep_wraps_iff_immutable_side_witness:
  "wf_heap deep_heap
   \<and> instanceofImmutableValue deep_heap (Ref 0) \<and> \<not> instanceofImmutableValue deep_heap (Ref 1)
   \<and> \<not> instanceofImmutableValue deep_heap (Ref 3)
   \<and> (\<exists>r h'. p_setDeep (Suc (Suc 0)) True isTerminal deep_heap (Ref 0) (Ref 2) = Some (Inr r, h')
         \<and> deref h' r = Some \<lparr>kind = ImmutableValue, props = [(''k'', Ref 6)], frozen = True\<rparr>)
   \<and> (\<exists>r h'. p_setDeep (Suc 0) True isTerminal deep_heap (Ref 1) (Ref 3) = Some (Inr r, h')
         \<and> deref h' r = Some \<lparr>kind = PlainObject,
               props = [(''m'', Num 1), (''n'', Num 9), (''p'', Num 3)], frozen = False\<rparr>)"
proof -
  let ?top = "\<lparr>kind = ImmutableValue, props = [(''k'', Ref 6)], frozen = True\<rparr>"
  let ?h' = "deep_heap @
     [\<lparr>kind = PlainObject, props = [(''k'', Ref 6)], frozen = False\<rparr>,
      \<lparr>kind = PlainObject, props = [(''m'', Num 1), (''n'', Num 9), (''p'', Num 3)], frozen = False\<rparr>,
      ?top]"
  let ?inner = "\<lparr>kind = PlainObject, props = [(''m'', Num 1), (''n'', Num 9), (''p'', Num 3)], frozen = False\<rparr>"
  have iv: "instanceofImmutableValue deep_heap (Ref 0)" "\<not> instanceofImmutableValue deep_heap (Ref 1)"
    "\<not> instanceofImmutableValue deep_heap (Ref 3)"
    by (simp_all add: deep_heap_def instanceofImmutableValue_def deref_def)
  have inner_run: "p_setDeep (Suc 0) True isTerminal deep_heap (Ref 1) (Ref 3)
      = Some (Inr (Ref 5), deep_heap @ [?inner])"
    by code_simp
  have top: "deref ?h' (Ref 7) = Some ?top"
    by (simp add: deep_heap_def deref_def)
  have inner: "deref (deep_heap @ [?inner]) (Ref 5) = Some ?inner"
    by (simp add: deep_heap_def deref_def)
  from setDeep_wraps_iff_immutable_side [OF wf_deep_heap, of 0 "Ref 0" True isTerminal "Ref 2"]
    deep_run_rec
  have "\<exists>new. deref ?h' (Ref 7) = Some new \<and> (kind new = ImmutableValue \<longrightarrow> frozen new = True)"
    by blast
  then show ?thesis
    using wf_deep_heap iv deep_run_rec inner_run top inner by blast
qed

text \<open>The claim as stated fails in a production build (\<^verbatim>\<open>__DEV__\<close> off): the value
  returned for an immutable base is an instance of \<^verbatim>\<open>ImmutableValue\<close> that is not sealed.\<close>

theorem setDeep_unsealed_in_production_counterexample:
  "ImmutableObject_setDeep (Suc 0) False isTerminal production_heap (Ref 0) (Ref 2) =
   Some (Inr (Ref 4), production_heap @
     [\<lparr>kind = PlainObject, props = [(''k'', Num 5)], frozen = False\<rparr>,
      \<lparr>kind = ImmutableValue, props = [(''k'', Num 5)], frozen = False\<rparr>])"
  by code_simp

lemma p_setDeep_malformed:
  assumes wf: "wf_heap h" and bad: "malformed d isT h ob put"
    and res: "p_setDeep n dev isT h ob put = Some (res, h')"
  shows "res = Inl MalformedMergePair"
proof (cases "checkMergeObjectArgs h ob put")
  case False
  then show ?thesis using res by (cases n) simp_all
next
  case True
  then have "validRef h ob" "validRef h put"
    by (simp_all add: checkMergeObjectArgs_def isMapping_validRef)
  then show ?thesis
    using p_setDeep_malformed_gen [OF wf prefix_order.refl _ _ bad res] by simp
qed

text \<open>
  \<^bold>\<open>C8\<close> (a malformed pair aborts the merge). In a well-formed store, whatever the
  classifier, when somewhere on the way down, at any depth, the pair of values that
  \<^verbatim>\<open>_setDeep\<close> is called with fails \<^verbatim>\<open>checkMergeObjectArgs\<close>: every call that returns at all
  returns the error of that check and no value, the enclosing calls being left at once,
  and every object of the store before the call is unchanged; and a call whose base is
  nested finitely deep does return, so the error is raised.
\<close>

theorem setDeep_malformed_pair_aborts:
  assumes "wf_heap h" and "malformed d isT h ob put"
  shows "(depth_le h d' ob \<longrightarrow>
            (\<exists>h'. p_setDeep (Suc d') dev isT h ob put = Some (Inl MalformedMergePair, h')
               \<and> prefix h h'))
       \<and> (\<forall>n res h'. p_setDeep n dev isT h ob put = Some (res, h')
             \<longrightarrow> res = Inl MalformedMergePair \<and> prefix h h')"
proof -
  have part: "res = Inl MalformedMergePair \<and> prefix h h'"
    if "p_setDeep n dev isT h ob put = Some (res, h')" for n res h'
    using p_setDeep_malformed [OF assms that] p_setDeep_prefix [OF that] by simp
  have "\<exists>h'. p_setDeep (Suc d') dev isT h ob put = Some (Inl MalformedMergePair, h') \<and> prefix h h'"
    if "depth_le h d' ob"
  proof -
    from p_setDeep_returns [OF assms(1) that] obtain res h' where
      run: "p_setDeep (Suc d') dev isT h ob put = Some (res, h')" by blast
    then show ?thesis using part [OF run] by blast
  qed
  then show ?thesis using part by blast
qed

theorem setDeep_malformed_pair_aborts_witness:
  "wf_heap array_heap \<and> malformed 1 objectsNonTerminal array_heap (Ref 0) (Ref 2)
   \<and> checkMergeObjectArgs array_heap (Ref 0) (Ref 2)
   \<and> \<not> checkMergeObjectArgs array_heap (Ref 1) (Ref 3)
   \<and> depth_le array_heap 2 (Ref 0)
   \<and> (\<exists>h'. p_setDeep (Suc (Suc (Suc 0))) True objectsNonTerminal array_heap (Ref 0) (Ref 2)
              = Some (Inl MalformedMergePair, h')
         \<and> prefix array_heap h')
   \<and> malformed 0 isTerminal array_heap (Ref 0) (Ref 3)
   \<and> p_setDeep (Suc 0) True isTerminal array_heap (Ref 0) (Ref 3)
        = Some (Inl MalformedMergePair, array_heap)"
proof -
  have m1: "malformed 1 objectsNonTerminal array_heap (Ref 0) (Ref 2)" by code_simp
  have c0: "checkMergeObjectArgs array_heap (Ref 0) (Ref 2)" by code_simp
  have c1: "\<not> checkMergeObjectArgs array_heap (Ref 1) (Ref 3)" by code_simp
  have d: "depth_le array_heap 2 (Ref 0)" by code_simp
  have m0: "malformed 0 isTerminal array_heap (Ref 0) (Ref 3)" by code_simp
  have top: "p_setDeep (Suc 0) True isTerminal array_heap (Ref 0) (Ref 3)
        = Some (Inl MalformedMergePair, array_heap)"
    by code_simp
  have "\<exists>h'. p_setDeep (Suc (Suc (Suc 0))) True objectsNonTerminal array_heap (Ref 0) (Ref 2)
              = Some (Inl MalformedMergePair, h')
         \<and> prefix array_heap h'"
    using setDeep_malformed_pair_aborts [OF wf_array_heap m1, of 2 True] d
    by (simp add: numeral_2_eq_2)
  then show ?thesis using wf_array_heap m1 c0 c1 d m0 top by blast
qed

end
